theory Spec2Isabelle
  imports Main "HOL-Library.Sublist"
begin

section \<open>Data model: entries and trackers\<close>

text \<open>
  The interface \<open>Entry\<close> of the tracker module has the fields \<open>name\<close>, \<open>startTime\<close>,
  \<open>endTime\<close>, \<open>subEntries\<close> and \<open>collapsed\<close>. A timestamp is declared
  \<open>string | null\<close>; the legacy pass of \<open>updateLegacyInfo\<close> also meets Unix seconds,
  stored as numbers by older versions, so a timestamp is null, a string or a number.
  The optional field \<open>subEntries\<close> is absent (\<open>undefined\<close>), null (the legacy pass
  tests \<open>== null\<close>) or an array; \<open>collapsed\<close> is absent or a boolean.
\<close>

datatype tstamp = TNull | TStr string | TNum int

datatype 'a field = Undefined | Null | Val 'a

datatype entry =
  Entry (name: string) (startTime: tstamp) (endTime: tstamp)
        (subEntries: "entry list field") (collapsed: "bool option")

record tracker =
  entries :: "entry list"
  targetTime :: "string option"

text \<open>JavaScript truthiness of a timestamp: null, the empty string and 0 are falsy.\<close>

fun truthy :: "tstamp \<Rightarrow> bool" where
  "truthy TNull = False"
| "truthy (TStr s) = (s \<noteq> [])"
| "truthy (TNum n) = (n \<noteq> 0)"

text \<open>Decimal rendering of a number inside a template string.\<close>

definition digit_char :: "nat \<Rightarrow> char" where
  "digit_char d = ''0123456789'' ! d"

function show_nat :: "nat \<Rightarrow> string" where
  "show_nat n = (if n < 10 then [digit_char n] else show_nat (n div 10) @ [digit_char (n mod 10)])"
  by pat_completeness auto
termination
  by (relation "measure (\<lambda>n. n)") auto

declare show_nat.simps [simp del]

section \<open>JSON values, \<open>JSON.stringify\<close> and \<open>JSON.parse\<close>\<close>

text \<open>
  The tracker is stored as the text that \<open>JSON.stringify\<close> produces and read back with
  \<open>JSON.parse\<close>. Both belong to the JavaScript runtime; they are modelled here as far
  as trackers need them. Characters are the code units below 256. Numbers are integers
  (legacy timestamps are Unix seconds): a number with a fraction or an exponent is
  outside the model and the parser of the model rejects it. An object is the list of
  its properties in insertion order; a property whose value is \<open>undefined\<close> is left out,
  as \<open>JSON.stringify\<close> leaves it out.
\<close>

definition is_digit :: "char \<Rightarrow> bool" where
  "is_digit c = (c \<in> set ''0123456789'')"

datatype json = JNull | JBool bool | JNum int | JStr string | JArr "json list" | JObj "(string \<times> json) list"

definition hex_char :: "nat \<Rightarrow> char" where
  "hex_char d = ''0123456789abcdef'' ! d"

definition escape_char :: "char \<Rightarrow> string" where
  "escape_char c =
     (if c = CHR 0x22 then [CHR 0x5C, CHR 0x22]
      else if c = CHR 0x5C then [CHR 0x5C, CHR 0x5C]
      else if c = CHR 0x08 then [CHR 0x5C, CHR ''b'']
      else if c = CHR 0x0C then [CHR 0x5C, CHR ''f'']
      else if c = CHR 0x0A then [CHR 0x5C, CHR ''n'']
      else if c = CHR 0x0D then [CHR 0x5C, CHR ''r'']
      else if c = CHR 0x09 then [CHR 0x5C, CHR ''t'']
      else if (of_char c :: nat) < 32
        then [CHR 0x5C, CHR ''u'', CHR ''0'', CHR ''0'', hex_char (of_char c div 16), hex_char (of_char c mod 16)]
      else [c])"

definition quote :: "string \<Rightarrow> string" where
  "quote s = CHR 0x22 # concat (map escape_char s) @ [CHR 0x22]"

fun commas :: "string list \<Rightarrow> string" where
  "commas [] = []"
| "commas [x] = x"
| "commas (x # y # xs) = x @ CHR '','' # commas (y # xs)"

definition show_int :: "int \<Rightarrow> string" where
  "show_int i = (if i < 0 then CHR ''-'' # show_nat (nat (- i)) else show_nat (nat i))"

fun JSON_stringify :: "json \<Rightarrow> string"
and stringify_elements :: "json list \<Rightarrow> string list"
and stringify_members :: "(string \<times> json) list \<Rightarrow> string list" where
  "JSON_stringify JNull = ''null''"
| "JSON_stringify (JBool b) = (if b then ''true'' else ''false'')"
| "JSON_stringify (JNum i) = show_int i"
| "JSON_stringify (JStr s) = quote s"
| "JSON_stringify (JArr vs) = CHR ''['' # commas (stringify_elements vs) @ '']''"
| "JSON_stringify (JObj kvs) = CHR ''{'' # commas (stringify_members kvs) @ ''}''"
| "stringify_elements [] = []"
| "stringify_elements (v # vs) = JSON_stringify v # stringify_elements vs"
| "stringify_members [] = []"
| "stringify_members ((k, v) # kvs) = (quote k @ CHR '':'' # JSON_stringify v) # stringify_members kvs"

definition is_ws :: "char \<Rightarrow> bool" where
  "is_ws c = (c = CHR '' '' \<or> c = CHR 0x09 \<or> c = CHR 0x0A \<or> c = CHR 0x0D)"

definition skip_ws :: "string \<Rightarrow> string" where
  "skip_ws s = dropWhile is_ws s"


definition digit_val :: "char \<Rightarrow> nat" where
  "digit_val c = of_char c - 48"

definition hex_val :: "char \<Rightarrow> nat option" where
  "hex_val c =
     (if is_digit c then Some (of_char c - 48)
      else if c \<in> set ''abcdef'' then Some (of_char c - 87)
      else if c \<in> set ''ABCDEF'' then Some (of_char c - 55)
      else None)"

definition unescape :: "char \<Rightarrow> char option" where
  "unescape e =
     (if e = CHR 0x22 then Some (CHR 0x22)
      else if e = CHR 0x5C then Some (CHR 0x5C)
      else if e = CHR ''/'' then Some (CHR ''/'')
      else if e = CHR ''b'' then Some (CHR 0x08)
      else if e = CHR ''f'' then Some (CHR 0x0C)
      else if e = CHR ''n'' then Some (CHR 0x0A)
      else if e = CHR ''r'' then Some (CHR 0x0D)
      else if e = CHR ''t'' then Some (CHR 0x09)
      else None)"

definition hex4 :: "char \<Rightarrow> char \<Rightarrow> char \<Rightarrow> char \<Rightarrow> char option" where
  "hex4 h1 h2 h3 h4 =
     (case (hex_val h1, hex_val h2, hex_val h3, hex_val h4) of
        (Some a, Some b, Some c, Some d) \<Rightarrow>
          if a = 0 \<and> b = 0 then Some (char_of (16 * c + d)) else None
      | _ \<Rightarrow> None)"

fun parse_chars :: "string \<Rightarrow> (string \<times> string) option" where
  "parse_chars [] = None"
| "parse_chars (c # cs) =
     (if c = CHR 0x22 then Some ([], cs)
      else if c = CHR 0x5C then
        (case cs of
           [] \<Rightarrow> None
         | e # cs1 \<Rightarrow>
             if e = CHR ''u'' then
               (case cs1 of
                  h1 # h2 # h3 # h4 # cs2 \<Rightarrow>
                    (case hex4 h1 h2 h3 h4 of
                       None \<Rightarrow> None
                     | Some x \<Rightarrow> map_option (\<lambda>(s, r). (x # s, r)) (parse_chars cs2))
                | _ \<Rightarrow> None)
             else
               (case unescape e of
                  None \<Rightarrow> None
                | Some x \<Rightarrow> map_option (\<lambda>(s, r). (x # s, r)) (parse_chars cs1)))
      else if (of_char c :: nat) < 32 then None
      else map_option (\<lambda>(s, r). (c # s, r)) (parse_chars cs))"

definition parse_number :: "string \<Rightarrow> (json \<times> string) option" where
  "parse_number s =
     (let neg = (s \<noteq> [] \<and> hd s = CHR ''-'');
          s1 = (if neg then tl s else s);
          ds = takeWhile is_digit s1;
          r = dropWhile is_digit s1
      in if ds = [] then None
         else if hd ds = CHR ''0'' \<and> 1 < length ds then None
         else if r \<noteq> [] \<and> hd r \<in> set ''.eE'' then None
         else Some (JNum ((if neg then - 1 else 1) * int (foldl (\<lambda>a c. 10 * a + digit_val c) 0 ds)), r))"

definition parse_literal :: "string \<Rightarrow> (json \<times> string) option" where
  "parse_literal s =
     (if take 4 s = ''null'' then Some (JNull, drop 4 s)
      else if take 4 s = ''true'' then Some (JBool True, drop 4 s)
      else if take 5 s = ''false'' then Some (JBool False, drop 5 s)
      else None)"

text \<open>
  The parser is a recursive descent over the text. The fuel bounds the nesting of
  calls; \<open>JSON_parse\<close> starts with the length of the text. A property name that
  occurs again replaces the value and keeps the place of the first occurrence.
\<close>

fun obj_put :: "(string \<times> json) list \<Rightarrow> string \<Rightarrow> json \<Rightarrow> (string \<times> json) list" where
  "obj_put [] k v = [(k, v)]"
| "obj_put ((k', v') # m) k v = (if k' = k then (k, v) # m else (k', v') # obj_put m k v)"

fun parse_value :: "nat \<Rightarrow> string \<Rightarrow> (json \<times> string) option"
and parse_elements :: "nat \<Rightarrow> string \<Rightarrow> (json list \<times> string) option"
and parse_members :: "nat \<Rightarrow> string \<Rightarrow> ((string \<times> json) list \<times> string) option" where
  "parse_value 0 s = None"
| "parse_value (Suc f) s =
     (case s of
        [] \<Rightarrow> None
      | c # cs \<Rightarrow>
          if c = CHR ''['' then
            (case skip_ws cs of
               [] \<Rightarrow> None
             | d # ds \<Rightarrow>
                 if d = CHR '']'' then Some (JArr [], ds)
                 else map_option (\<lambda>(vs, r). (JArr vs, r)) (parse_elements f (d # ds)))
          else if c = CHR ''{'' then
            (case skip_ws cs of
               [] \<Rightarrow> None
             | d # ds \<Rightarrow>
                 if d = CHR ''}'' then Some (JObj [], ds)
                 else map_option (\<lambda>(m, r). (JObj (foldl (\<lambda>acc (k, v). obj_put acc k v) [] m), r))
                        (parse_members f (d # ds)))
          else if c = CHR 0x22 then map_option (\<lambda>(x, r). (JStr x, r)) (parse_chars cs)
          else if c = CHR ''-'' \<or> is_digit c then parse_number s
          else parse_literal s)"
| "parse_elements 0 s = None"
| "parse_elements (Suc f) s =
     (case parse_value f s of
        None \<Rightarrow> None
      | Some (v, r) \<Rightarrow>
          (case skip_ws r of
             [] \<Rightarrow> None
           | d # ds \<Rightarrow>
               if d = CHR '']'' then Some ([v], ds)
               else if d = CHR '','' then
                 map_option (\<lambda>(vs, r'). (v # vs, r')) (parse_elements f (skip_ws ds))
               else None))"
| "parse_members 0 s = None"
| "parse_members (Suc f) s =
     (case s of
        [] \<Rightarrow> None
      | c # cs \<Rightarrow>
          if c \<noteq> CHR 0x22 then None
          else
            (case parse_chars cs of
               None \<Rightarrow> None
             | Some (k, r) \<Rightarrow>
                 (case skip_ws r of
                    [] \<Rightarrow> None
                  | d # ds \<Rightarrow>
                      if d \<noteq> CHR '':'' then None
                      else
                        (case parse_value f (skip_ws ds) of
                           None \<Rightarrow> None
                         | Some (v, r1) \<Rightarrow>
                             (case skip_ws r1 of
                                [] \<Rightarrow> None
                              | d1 # ds1 \<Rightarrow>
                                  if d1 = CHR ''}'' then Some ([(k, v)], ds1)
                                  else if d1 = CHR '','' then
                                    map_option (\<lambda>(m, r2). ((k, v) # m, r2)) (parse_members f (skip_ws ds1))
                                  else None)))))"

definition JSON_parse :: "string \<Rightarrow> json option" where
  "JSON_parse s =
     (case parse_value (length s) (skip_ws s) of
        None \<Rightarrow> None
      | Some (v, r) \<Rightarrow> if skip_ws r = [] then Some v else None)"


section \<open>Entry tree operations\<close>

text \<open>
  An object of the tree is denoted by its path: the indices leading to it from the
  entry list at hand. The trees are built by \<open>JSON.parse\<close> and by object literals, so no
  object occurs twice and the path is the identity of the object.
\<close>

fun shift :: "nat list option \<Rightarrow> nat list option" where
  "shift None = None"
| "shift (Some []) = Some []"
| "shift (Some (i # p)) = Some (Suc i # p)"

text \<open>
  \<open>getRunningEntry\<close>: the loop over \<open>entries\<close>; an entry with truthy \<open>subEntries\<close> (any
  array) is searched recursively, any other entry is returned when its \<open>endTime\<close> is
  falsy. The result is the path of the returned object, \<open>None\<close> for \<open>null\<close>.
\<close>

fun getRunningEntry :: "entry list \<Rightarrow> nat list option" where
  "getRunningEntry [] = None"
| "getRunningEntry (Entry n s e (Val subs) c # es) =
     (case getRunningEntry subs of
        Some p \<Rightarrow> Some (0 # p)
      | None \<Rightarrow> shift (getRunningEntry es))"
| "getRunningEntry (Entry n s e sub c # es) =
     (if \<not> truthy e then Some [0] else shift (getRunningEntry es))"

definition isRunning :: "tracker \<Rightarrow> bool" where
  "isRunning t = (getRunningEntry (entries t) \<noteq> None)"

text \<open>
  \<open>startSubEntry(entry, name)\<close>; \<open>now\<close> is the value of \<open>moment().toISOString()\<close>.
  The spread \<open>{...entry, name: `Part 1`}\<close> copies every field of the entry.
\<close>

definition startSubEntry :: "string \<Rightarrow> entry \<Rightarrow> string \<Rightarrow> entry" where
  "startSubEntry now entry nm =
     (let subs = (case subEntries entry of
                    Val xs \<Rightarrow> xs
                  | _ \<Rightarrow> [Entry ''Part 1'' (startTime entry) (endTime entry)
                              (subEntries entry) (collapsed entry)]);
          st = (case subEntries entry of Val xs \<Rightarrow> startTime entry | _ \<Rightarrow> TNull);
          en = (case subEntries entry of Val xs \<Rightarrow> endTime entry | _ \<Rightarrow> TNull);
          nm' = (if nm = [] then ''Part '' @ show_nat (length subs + 1) else nm)
      in Entry (name entry) st en
           (Val (subs @ [Entry nm' (TStr now) TNull Undefined None])) (collapsed entry))"

definition startNewEntry :: "string \<Rightarrow> tracker \<Rightarrow> string \<Rightarrow> tracker" where
  "startNewEntry now t nm =
     (let nm' = (if nm = [] then ''Segment '' @ show_nat (length (entries t) + 1) else nm)
      in t\<lparr>entries := entries t @ [Entry nm' (TStr now) TNull Undefined None]\<rparr>)"

text \<open>
  \<open>endRunningEntryInSegment\<close> and \<open>hasRunningEntry\<close>. The assignment
  \<open>running.endTime = ...\<close> through the reference that \<open>getRunningEntry\<close> returned is an
  update of the tree at the returned path.
\<close>

fun set_endTime :: "tstamp \<Rightarrow> entry \<Rightarrow> entry" where
  "set_endTime t (Entry n s e sub c) = Entry n s t sub c"

fun update_at :: "(entry \<Rightarrow> entry) \<Rightarrow> nat list \<Rightarrow> entry list \<Rightarrow> entry list" where
  "update_at f [] es = es"
| "update_at f [i] es = (if i < length es then es[i := f (es ! i)] else es)"
| "update_at f (i # p) es =
     (if i < length es then
        (case es ! i of
           Entry n s e (Val subs) c \<Rightarrow> es[i := Entry n s e (Val (update_at f p subs)) c]
         | _ \<Rightarrow> es)
      else es)"

definition endRunningEntryInSegment :: "string \<Rightarrow> entry \<Rightarrow> entry" where
  "endRunningEntryInSegment now entry =
     (case subEntries entry of
        Val subs \<Rightarrow>
          (case getRunningEntry subs of
             Some p \<Rightarrow> Entry (name entry) (startTime entry) (endTime entry)
                         (Val (update_at (set_endTime (TStr now)) p subs)) (collapsed entry)
           | None \<Rightarrow> entry)
      | _ \<Rightarrow> if \<not> truthy (endTime entry) then set_endTime (TStr now) entry else entry)"

definition hasRunningEntry :: "entry \<Rightarrow> bool" where
  "hasRunningEntry entry =
     (case subEntries entry of
        Val subs \<Rightarrow> getRunningEntry subs \<noteq> None
      | _ \<Rightarrow> \<not> truthy (endTime entry))"

text \<open>
  \<open>removeEntry(entries, toRemove)\<close>, with \<open>toRemove\<close> given by its path from \<open>entries\<close> (the list \<open>es\<close> below).
  \<open>entries.contains(toRemove)\<close> holds when the path is a single index of the list; then
  the object is removed. Otherwise the loop calls \<open>removeEntry(entry.subEntries,
  toRemove)\<close> for the entries with truthy \<open>subEntries\<close>; only the call on the entry that
  the path goes through can find the object, and there the rest of the path denotes it.
  After a successful call the entry is flattened when one sub-entry remains. The result
  is the list after the mutation and the returned boolean.
\<close>

fun removeEntry :: "entry list \<Rightarrow> nat list \<Rightarrow> entry list \<times> bool" where
  "removeEntry es [] = (es, False)"
| "removeEntry es [i] =
     (if i < length es then (take i es @ drop (Suc i) es, True)
      else (es, False))"
| "removeEntry es (i # p) =
     (if i < length es then
        (case es ! i of
           Entry n s e (Val subs) c \<Rightarrow>
             (case removeEntry subs p of
                (subs', True) \<Rightarrow>
                  (if length subs' = 1
                   then (es[i := Entry n (startTime (subs' ! 0)) (endTime (subs' ! 0)) Undefined c], True)
                   else (es[i := Entry n s e (Val subs') c], True))
              | (subs', False) \<Rightarrow> (es, False))
         | _ \<Rightarrow> (es, False))
      else (es, False))"

section \<open>Tracker codec and legacy migration\<close>

text \<open>
  The object that \<open>JSON.stringify(tracker)\<close> sees, for a tracker of the interface:
  the properties in the order of the interface, absent ones left out.
\<close>

fun tstamp_json :: "tstamp \<Rightarrow> json" where
  "tstamp_json TNull = JNull"
| "tstamp_json (TStr s) = JStr s"
| "tstamp_json (TNum n) = JNum n"

fun collapsed_json :: "bool option \<Rightarrow> (string \<times> json) list" where
  "collapsed_json None = []"
| "collapsed_json (Some b) = [(''collapsed'', JBool b)]"

fun entry_json :: "entry \<Rightarrow> json"
and entries_json :: "entry list \<Rightarrow> json list" where
  "entry_json (Entry n s e (Val xs) c) =
     JObj ([(''name'', JStr n), (''startTime'', tstamp_json s), (''endTime'', tstamp_json e),
            (''subEntries'', JArr (entries_json xs))] @ collapsed_json c)"
| "entry_json (Entry n s e Null c) =
     JObj ([(''name'', JStr n), (''startTime'', tstamp_json s), (''endTime'', tstamp_json e),
            (''subEntries'', JNull)] @ collapsed_json c)"
| "entry_json (Entry n s e Undefined c) =
     JObj ([(''name'', JStr n), (''startTime'', tstamp_json s), (''endTime'', tstamp_json e)]
           @ collapsed_json c)"
| "entries_json [] = []"
| "entries_json (x # xs) = entry_json x # entries_json xs"

definition tracker_json :: "tracker \<Rightarrow> json" where
  "tracker_json t =
     JObj ((''entries'', JArr (entries_json (entries t)))
           # (case targetTime t of None \<Rightarrow> [] | Some s \<Rightarrow> [(''targetTime'', JStr s)]))"

definition encode :: "tracker \<Rightarrow> string" where
  "encode t = JSON_stringify (tracker_json t)"

text \<open>
  \<open>let ret: Tracker = JSON.parse(json)\<close> is an unchecked cast. The parsed value is read
  as a tracker when it has the shape of the interface, with the legacy forms of the
  fields; properties outside the interface are not represented. On a value of another
  shape the code either throws a \<open>TypeError\<close> inside the \<open>try\<close> block (no \<open>entries\<close>, a
  null entry) or hands the object on; such objects are no trackers, and the model
  takes the first case for all of them.
\<close>

fun json_tstamp :: "json option \<Rightarrow> tstamp option" where
  "json_tstamp (Some JNull) = Some TNull"
| "json_tstamp (Some (JStr s)) = Some (TStr s)"
| "json_tstamp (Some (JNum n)) = Some (TNum n)"
| "json_tstamp _ = None"

fun json_collapsed :: "json option \<Rightarrow> bool option option" where
  "json_collapsed None = Some None"
| "json_collapsed (Some (JBool b)) = Some (Some b)"
| "json_collapsed _ = None"

lemma size_map_of_json:
  "map_of m k = Some v \<Longrightarrow> size v < Suc (size_list (size_prod (\<lambda>_. 0) size) m)"
  by (induction m) (auto split: if_splits)

lemma size_member_json:
  "x \<in> set xs \<Longrightarrow> size x < Suc (size_list size xs)"
  by (induction xs) auto

function json_entry :: "json \<Rightarrow> entry option" where
  "json_entry (JObj m) =
     (case map_of m ''name'' of
        Some (JStr n) \<Rightarrow>
          (case json_tstamp (map_of m ''startTime'') of
             None \<Rightarrow> None
           | Some s \<Rightarrow>
               (case json_tstamp (map_of m ''endTime'') of
                  None \<Rightarrow> None
                | Some e \<Rightarrow>
                    (case json_collapsed (map_of m ''collapsed'') of
                       None \<Rightarrow> None
                     | Some c \<Rightarrow>
                         (case map_of m ''subEntries'' of
                            None \<Rightarrow> Some (Entry n s e Undefined c)
                          | Some JNull \<Rightarrow> Some (Entry n s e Null c)
                          | Some (JArr xs) \<Rightarrow>
                              map_option (\<lambda>ys. Entry n s e (Val ys) c) (those (map json_entry xs))
                          | Some _ \<Rightarrow> None))))
      | _ \<Rightarrow> None)"
| "json_entry JNull = None"
| "json_entry (JBool b) = None"
| "json_entry (JNum i) = None"
| "json_entry (JStr s) = None"
| "json_entry (JArr xs) = None"
  by pat_completeness auto
termination
proof (relation "measure size", goal_cases)
  case 1
  show ?case by simp
next
  case (2 m x21 x4 x2 x2a x2b x2c x5 z)
  then have "size (JArr x5) < Suc (size_list (size_prod (\<lambda>_. 0) size) m)"
    and "size z < Suc (size_list size x5)"
    using size_map_of_json [of m "''subEntries''" "JArr x5"] size_member_json [of z x5] by simp_all
  then show ?case by simp
qed

definition json_tracker :: "json \<Rightarrow> tracker option" where
  "json_tracker v =
     (case v of
        JObj m \<Rightarrow>
          (case map_of m ''entries'' of
             Some (JArr xs) \<Rightarrow>
               (case those (map json_entry xs) of
                  None \<Rightarrow> None
                | Some es \<Rightarrow>
                    (case map_of m ''targetTime'' of
                       None \<Rightarrow> Some \<lparr>entries = es, targetTime = None\<rparr>
                     | Some (JStr s) \<Rightarrow> Some \<lparr>entries = es, targetTime = Some s\<rparr>
                     | Some _ \<Rightarrow> None))
           | _ \<Rightarrow> None)
      | _ \<Rightarrow> None)"

text \<open>
  \<open>!isNaN(+s)\<close> for a string \<open>s\<close>: the text, trimmed of white space, is empty or a
  numeric literal (hexadecimal, octal or binary digits after their prefix, or a signed
  decimal literal with optional fraction and exponent, or \<open>Infinity\<close>).
\<close>

definition is_js_ws :: "char \<Rightarrow> bool" where
  "is_js_ws c = (c \<in> set [CHR 0x09, CHR 0x0A, CHR 0x0B, CHR 0x0C, CHR 0x0D, CHR 0x20, CHR 0xA0])"

definition trimEnd :: "string \<Rightarrow> string" where
  "trimEnd s = rev (dropWhile is_js_ws (rev s))"

definition trim :: "string \<Rightarrow> string" where
  "trim s = trimEnd (dropWhile is_js_ws s)"

definition exponent_ok :: "string \<Rightarrow> bool" where
  "exponent_ok r =
     (case r of
        [] \<Rightarrow> True
      | c # r1 \<Rightarrow>
          (c = CHR ''e'' \<or> c = CHR ''E'') \<and>
          (let r2 = (case r1 of
                       [] \<Rightarrow> []
                     | d # r3 \<Rightarrow> if d = CHR ''+'' \<or> d = CHR ''-'' then r3 else r1)
           in r2 \<noteq> [] \<and> list_all is_digit r2))"

definition decimal_ok :: "string \<Rightarrow> bool" where
  "decimal_ok r =
     (if r = ''Infinity'' then True
      else
        (let ip = takeWhile is_digit r; r1 = dropWhile is_digit r
         in case r1 of
              [] \<Rightarrow> ip \<noteq> []
            | c # r2 \<Rightarrow>
                if c = CHR ''.'' then
                  (ip \<noteq> [] \<or> takeWhile is_digit r2 \<noteq> []) \<and> exponent_ok (dropWhile is_digit r2)
                else ip \<noteq> [] \<and> exponent_ok r1))"

definition radix_ok :: "string \<Rightarrow> string \<Rightarrow> bool" where
  "radix_ok digits ds = (ds \<noteq> [] \<and> list_all (\<lambda>c. c \<in> set digits) ds)"

definition js_numeric :: "string \<Rightarrow> bool" where
  "js_numeric s =
     (let t = trim s
      in if t = [] then True
         else if take 2 t = ''0x'' \<or> take 2 t = ''0X'' then radix_ok ''0123456789abcdefABCDEF'' (drop 2 t)
         else if take 2 t = ''0o'' \<or> take 2 t = ''0O'' then radix_ok ''01234567'' (drop 2 t)
         else if take 2 t = ''0b'' \<or> take 2 t = ''0B'' then radix_ok ''01'' (drop 2 t)
         else if hd t = CHR ''+'' \<or> hd t = CHR ''-'' then decimal_ok (tl t)
         else decimal_ok t)"

text \<open>
  \<open>updateLegacyInfo\<close>. The test \<open>entry.startTime && !isNaN(+entry.startTime)\<close> holds for
  a number other than 0 and for a non-empty numeric string. The conversion
  \<open>moment.unix(+v).toISOString()\<close> belongs to the moment library and is a parameter
  \<open>toISO\<close> of the model: it gives the text of the instant, or \<open>null\<close> (\<open>None\<close>) for an
  invalid date.
\<close>

fun legacy_numeric :: "tstamp \<Rightarrow> bool" where
  "legacy_numeric TNull = False"
| "legacy_numeric (TStr s) = (s \<noteq> [] \<and> js_numeric s)"
| "legacy_numeric (TNum n) = (n \<noteq> 0)"

definition legacy_time :: "(tstamp \<Rightarrow> string option) \<Rightarrow> tstamp \<Rightarrow> tstamp" where
  "legacy_time toISO t =
     (if legacy_numeric t then (case toISO t of None \<Rightarrow> TNull | Some s \<Rightarrow> TStr s) else t)"

fun updateLegacyInfo :: "(tstamp \<Rightarrow> string option) \<Rightarrow> entry list \<Rightarrow> entry list" where
  "updateLegacyInfo toISO [] = []"
| "updateLegacyInfo toISO (Entry n s e (Val xs) c # es) =
     Entry n (legacy_time toISO s) (legacy_time toISO e)
       (if xs = [] then Undefined else Val (updateLegacyInfo toISO xs)) c
     # updateLegacyInfo toISO es"
| "updateLegacyInfo toISO (Entry n s e sub c # es) =
     Entry n (legacy_time toISO s) (legacy_time toISO e) Undefined c
     # updateLegacyInfo toISO es"

text \<open>
  \<open>loadTracker\<close>. \<open>loadTracker_try\<close> is the body of the \<open>try\<close> block, with the
  exceptions as error values; \<open>loadTracker\<close> is the whole function: its result is the
  returned tracker and the lines written by \<open>console.error\<close>.
\<close>

datatype error = SyntaxError | TypeError

definition loadTracker_try :: "(tstamp \<Rightarrow> string option) \<Rightarrow> string \<Rightarrow> error + tracker" where
  "loadTracker_try toISO json =
     (case JSON_parse json of
        None \<Rightarrow> Inl SyntaxError
      | Some v \<Rightarrow>
          (case json_tracker v of
             None \<Rightarrow> Inl TypeError
           | Some ret \<Rightarrow> Inr (ret\<lparr>entries := updateLegacyInfo toISO (entries ret)\<rparr>)))"

definition loadTracker :: "(tstamp \<Rightarrow> string option) \<Rightarrow> string \<Rightarrow> tracker \<times> string list" where
  "loadTracker toISO json =
     (if json \<noteq> [] then
        (case loadTracker_try toISO json of
           Inr ret \<Rightarrow> (ret, [])
         | Inl e \<Rightarrow> (\<lparr>entries = [], targetTime = None\<rparr>, [''Failed to parse Tracker from '' @ json]))
      else (\<lparr>entries = [], targetTime = None\<rparr>, []))"

section \<open>Documents: locating, rewriting and scanning tracker blocks\<close>

text \<open>
  The vault holds the markdown files: their paths, in the order of
  \<open>getMarkdownFiles\<close>, with their contents. \<open>read\<close> looks a path up; a path that is
  no file has no content. \<open>modify\<close> replaces the content of a file.
\<close>

type_synonym vault = "(string \<times> string) list"

definition read :: "vault \<Rightarrow> string \<Rightarrow> string option" where
  "read v path = map_of v path"

definition modify :: "vault \<Rightarrow> string \<Rightarrow> string \<Rightarrow> vault" where
  "modify v path content = map (\<lambda>(p, c). if p = path then (p, content) else (p, c)) v"

text \<open>\<open>content.split("\n")\<close> and \<open>lines.join("\n")\<close>.\<close>

fun split_nl :: "string \<Rightarrow> string list" where
  "split_nl [] = [[]]"
| "split_nl (c # cs) =
     (if c = CHR 0x0A then [] # split_nl cs
      else (case split_nl cs of
              [] \<Rightarrow> [[c]]
            | l # ls \<Rightarrow> (c # l) # ls))"

fun join_nl :: "string list \<Rightarrow> string" where
  "join_nl [] = []"
| "join_nl [x] = x"
| "join_nl (x # y # xs) = x @ CHR 0x0A # join_nl (y # xs)"

text \<open>\<open>lines.filter((_, i) => p(i))\<close>: the elements whose index satisfies \<open>p\<close>.\<close>

definition filter_index :: "(nat \<Rightarrow> bool) \<Rightarrow> 'a list \<Rightarrow> 'a list" where
  "filter_index p xs = map snd (filter (\<lambda>(i, x). p i) (enumerate 0 xs))"

record SectionInfo =
  lineStart :: int
  lineEnd :: int

text \<open>
  \<open>saveTracker\<close>: nothing happens when the path is no file; otherwise the file gets the
  lines up to and including \<open>lineStart\<close>, the serialized tracker, and the lines from
  \<open>lineEnd\<close> on. \<open>saveTracker_content\<close> is the new content.
\<close>

definition saveTracker_content :: "tracker \<Rightarrow> string \<Rightarrow> SectionInfo \<Rightarrow> string" where
  "saveTracker_content tracker content section =
     (let lines = split_nl content;
          prev = join_nl (filter_index (\<lambda>i. int i \<le> lineStart section) lines);
          next = join_nl (filter_index (\<lambda>i. int i \<ge> lineEnd section) lines)
      in prev @ [CHR 0x0A] @ encode tracker @ [CHR 0x0A] @ next)"

definition saveTracker :: "tracker \<Rightarrow> string \<Rightarrow> SectionInfo \<Rightarrow> vault \<Rightarrow> vault" where
  "saveTracker tracker fileName section v =
     (case read v fileName of
        None \<Rightarrow> v
      | Some content \<Rightarrow> modify v fileName (saveTracker_content tracker content section))"

text \<open>
  \<open>loadAllTrackers\<close>: the loop over the lines, with the index \<open>i\<close> and the block under
  way \<open>curr\<close> (here \<open>cur\<close>) (its \<open>lineStart\<close> and the text gathered so far). The result lists the
  sections with their trackers.
\<close>

definition fence_tag :: string where
  "fence_tag = ''```time-tracker-plus''"

definition fence :: string where
  "fence = ''```''"

fun scan_lines ::
  "(tstamp \<Rightarrow> string option) \<Rightarrow> nat \<Rightarrow> (int \<times> string) option \<Rightarrow> string list
     \<Rightarrow> (SectionInfo \<times> tracker) list" where
  "scan_lines toISO i cur [] = []"
| "scan_lines toISO i cur (line # ls) =
     (if trimEnd line = fence_tag then scan_lines toISO (Suc i) (Some (int i + 1, [])) ls
      else
        (case cur of
           None \<Rightarrow> scan_lines toISO (Suc i) None ls
         | Some (st, text) \<Rightarrow>
             if trimEnd line = fence
             then (\<lparr>lineStart = st, lineEnd = int i - 1\<rparr>, fst (loadTracker toISO text))
                    # scan_lines toISO (Suc i) None ls
             else scan_lines toISO (Suc i) (Some (st, text @ line @ [CHR 0x0A])) ls))"

definition loadAllTrackers ::
  "(tstamp \<Rightarrow> string option) \<Rightarrow> string \<Rightarrow> vault \<Rightarrow> (SectionInfo \<times> tracker) list" where
  "loadAllTrackers toISO fileName v =
     (case read v fileName of
        None \<Rightarrow> []
      | Some content \<Rightarrow> scan_lines toISO 0 None (split_nl content))"

text \<open>
  The scanner. The regular expression \<open>/```time-tracker-plus\n([\s\S]*?)\n```/g\<close>
  matches, from the end of the previous match on, at the first occurrence of the
  opening text, up to the first occurrence of the closing text after it. \<open>codeBlocks\<close>
  lists \<open>match[0]\<close> and \<open>match[1]\<close> of the successive matches.
\<close>

fun find_sub :: "string \<Rightarrow> string \<Rightarrow> (string \<times> string) option" where
  "find_sub p [] = (if p = [] then Some ([], []) else None)"
| "find_sub p (c # cs) =
     (if take (length p) (c # cs) = p then Some ([], drop (length p) (c # cs))
      else map_option (\<lambda>(b, a). (c # b, a)) (find_sub p cs))"

definition block_open :: string where
  "block_open = fence_tag @ [CHR 0x0A]"

definition block_close :: string where
  "block_close = CHR 0x0A # fence"

lemma find_sub_length:
  "find_sub p s = Some (b, a) \<Longrightarrow> length b + length p + length a = length s"
proof (induction s arbitrary: b)
  case Nil
  then show ?case by (simp split: if_splits)
next
  case (Cons c cs)
  show ?case
  proof (cases "take (length p) (c # cs) = p")
    case True
    then have "length (take (length p) (c # cs)) = length p" by simp
    then have "length p \<le> length (c # cs)" by simp
    with True Cons.prems show ?thesis by auto
  next
    case False
    with Cons.prems obtain b' where "find_sub p cs = Some (b', a)" "b = c # b'" by auto
    with Cons.IH [of b'] show ?thesis by simp
  qed
qed

function codeBlocks :: "string \<Rightarrow> (string \<times> string) list" where
  "codeBlocks s =
     (case find_sub block_open s of
        None \<Rightarrow> []
      | Some (b, a) \<Rightarrow>
          (case find_sub block_close a of
             None \<Rightarrow> []
           | Some (payload, rest) \<Rightarrow>
               (block_open @ payload @ block_close, payload) # codeBlocks rest))"
  by pat_completeness auto
termination
proof (relation "measure length", goal_cases)
  case 1
  show ?case by simp
next
  case (2 s x2 b a x2a payload rest)
  then have "length b + length block_open + length a = length s"
    and "length payload + length block_close + length rest = length a"
    using find_sub_length [of block_open s b a] find_sub_length [of block_close a payload rest]
    by simp_all
  then show ?case by (simp add: block_close_def)
qed

declare codeBlocks.simps [simp del]

text \<open>
  \<open>newContent.replace(match[0], text)\<close> with strings: the first occurrence of the
  search string is replaced, and in the replacement text \<open>$$\<close> stands for a dollar
  sign, \<open>$&\<close> for the matched text, \<open>$`\<close> for the text before the match and \<open>$'\<close> for
  the text after it (a string pattern has no groups, so \<open>$1\<close> stays as it is).
\<close>

fun substitute :: "string \<Rightarrow> string \<Rightarrow> string \<Rightarrow> string \<Rightarrow> string" where
  "substitute matched preceding following [] = []"
| "substitute matched preceding following [c] = [c]"
| "substitute matched preceding following (c # d # ds) =
     (if c = CHR ''$'' \<and> d = CHR ''$'' then CHR ''$'' # substitute matched preceding following ds
      else if c = CHR ''$'' \<and> d = CHR ''&'' then matched @ substitute matched preceding following ds
      else if c = CHR ''$'' \<and> d = CHR 0x60 then preceding @ substitute matched preceding following ds
      else if c = CHR ''$'' \<and> d = CHR 0x27 then following @ substitute matched preceding following ds
      else c # substitute matched preceding following (d # ds))"

definition replace_first :: "string \<Rightarrow> string \<Rightarrow> string \<Rightarrow> string" where
  "replace_first s pat rep =
     (case find_sub pat s of
        None \<Rightarrow> s
      | Some (b, a) \<Rightarrow> b @ substitute pat b a rep @ a)"

text \<open>
  The body of the \<open>try\<close> block of \<open>stopAllRunnersInFile\<close> for one match: the serialized
  tracker after the running entry got its end time, or \<open>None\<close> when the block is left
  alone (the text does not parse, or nothing runs). No migration takes place here.
  The parsed object is read through the \<open>Tracker\<close> interface and written back by
  \<open>encode\<close>, so the model writes the properties of the interface in the order of the
  interface; on a block that was written by \<open>JSON.stringify\<close> of a tracker this is the
  text \<open>JSON.stringify\<close> produces.
\<close>

definition stop_block :: "string \<Rightarrow> string \<Rightarrow> string option" where
  "stop_block now payload =
     (case JSON_parse payload of
        None \<Rightarrow> None
      | Some v \<Rightarrow>
          (case json_tracker v of
             None \<Rightarrow> None
           | Some tracker \<Rightarrow>
               if isRunning tracker then
                 (case getRunningEntry (entries tracker) of
                    None \<Rightarrow> None
                  | Some p \<Rightarrow>
                      Some (encode (tracker\<lparr>entries :=
                              update_at (set_endTime (TStr now)) p (entries tracker)\<rparr>)))
               else None))"

fun stop_loop :: "string \<Rightarrow> (string \<times> string) list \<Rightarrow> string \<times> bool \<Rightarrow> string \<times> bool" where
  "stop_loop now [] st = st"
| "stop_loop now ((m0, m1) # ms) (newContent, modified) =
     (case stop_block now m1 of
        None \<Rightarrow> stop_loop now ms (newContent, modified)
      | Some updatedTracker \<Rightarrow>
          stop_loop now ms
            (replace_first newContent m0 (block_open @ updatedTracker @ block_close), True))"

definition stopAllRunnersInFile :: "string \<Rightarrow> string \<Rightarrow> string \<Rightarrow> vault \<Rightarrow> vault \<times> bool" where
  "stopAllRunnersInFile now fileContent fileName v =
     (let (newContent, modified) = stop_loop now (codeBlocks fileContent) (fileContent, False)
      in (if modified then
            (case read v fileName of
               None \<Rightarrow> v
             | Some c \<Rightarrow> modify v fileName newContent)
          else v,
          modified))"





section \<open>Notions used in the statements\<close>

text \<open>
  The number of running leaves as the search sees them: entries whose \<open>subEntries\<close> is
  not an array and whose \<open>endTime\<close> is falsy.
\<close>

fun count_running :: "entry list \<Rightarrow> nat" where
  "count_running [] = 0"
| "count_running (Entry n s e (Val subs) c # es) = count_running subs + count_running es"
| "count_running (Entry n s e sub c # es) = (if \<not> truthy e then 1 else 0) + count_running es"

text \<open>The entry at a path.\<close>

fun entry_at :: "entry list \<Rightarrow> nat list \<Rightarrow> entry option" where
  "entry_at es [] = None"
| "entry_at es [i] = (if i < length es then Some (es ! i) else None)"
| "entry_at es (i # p) =
     (if i < length es then
        (case subEntries (es ! i) of Val subs \<Rightarrow> entry_at subs p | _ \<Rightarrow> None)
      else None)"

text \<open>
  The resting state of the data model: every container has at least two children.
\<close>

fun wf_entries :: "entry list \<Rightarrow> bool" where
  "wf_entries [] = True"
| "wf_entries (Entry n s e (Val subs) c # es) = (2 \<le> length subs \<and> wf_entries subs \<and> wf_entries es)"
| "wf_entries (Entry n s e sub c # es) = wf_entries es"

definition two_running :: tracker where
  "two_running = \<lparr>entries = [Entry ''A'' (TStr ''2024-01-01T09:00:00.000Z'') TNull Undefined None,
                             Entry ''B'' (TStr ''2024-01-01T10:00:00.000Z'') TNull Undefined None],
                  targetTime = None\<rparr>"


text \<open>
  Notions of the round trip of \<open>JSON.parse\<close> after \<open>JSON.stringify\<close>: the fuel a value
  needs, that no object has a property name twice, what may follow a number, and how a
  value starts.
\<close>

fun need :: "json \<Rightarrow> nat"
and needs :: "json list \<Rightarrow> nat"
and needm :: "(string \<times> json) list \<Rightarrow> nat" where
  "need (JArr vs) = Suc (needs vs)"
| "need (JObj m) = Suc (needm m)"
| "need JNull = 1"
| "need (JBool b) = 1"
| "need (JNum i) = 1"
| "need (JStr s) = 1"
| "needs [] = 0"
| "needs (v # vs) = Suc (max (need v) (needs vs))"
| "needm [] = 0"
| "needm ((k, v) # m) = Suc (max (need v) (needm m))"

fun distinct_keys :: "json \<Rightarrow> bool"
and distinct_keys_elements :: "json list \<Rightarrow> bool"
and distinct_keys_members :: "(string \<times> json) list \<Rightarrow> bool" where
  "distinct_keys (JArr vs) = distinct_keys_elements vs"
| "distinct_keys (JObj m) = (distinct (map fst m) \<and> distinct_keys_members m)"
| "distinct_keys JNull = True"
| "distinct_keys (JBool b) = True"
| "distinct_keys (JNum i) = True"
| "distinct_keys (JStr s) = True"
| "distinct_keys_elements [] = True"
| "distinct_keys_elements (v # vs) = (distinct_keys v \<and> distinct_keys_elements vs)"
| "distinct_keys_members [] = True"
| "distinct_keys_members ((k, v) # m) = (distinct_keys v \<and> distinct_keys_members m)"

definition ok_follow :: "string \<Rightarrow> bool" where
  "ok_follow r = (case r of [] \<Rightarrow> True | c # _ \<Rightarrow> \<not> is_digit c \<and> c \<notin> set ''.eE'')"

definition starts_value :: "string \<Rightarrow> bool" where
  "starts_value s = (case s of [] \<Rightarrow> False | c # _ \<Rightarrow> \<not> is_ws c \<and> c \<noteq> CHR '']'' \<and> c \<noteq> CHR ''}'')"

text \<open>
  The text that \<open>moment().toISOString()\<close> gives for the years 0 to 9999:
  \<open>YYYY-MM-DDTHH:mm:ss.SSSZ\<close>. A tracker is canonical when every timestamp is null or
  such a text and \<open>subEntries\<close> is absent or a non-empty array.
\<close>

fun is_iso8601 :: "string \<Rightarrow> bool" where
  "is_iso8601 [y1, y2, y3, y4, h1, m1, m2, h2, d1, d2, t, hh1, hh2, c1, mi1, mi2, c2, s1, s2, p, f1, f2, f3, z] =
     (list_all is_digit [y1, y2, y3, y4, m1, m2, d1, d2, hh1, hh2, mi1, mi2, s1, s2, f1, f2, f3]
      \<and> h1 = CHR ''-'' \<and> h2 = CHR ''-'' \<and> t = CHR ''T'' \<and> c1 = CHR '':'' \<and> c2 = CHR '':''
      \<and> p = CHR ''.'' \<and> z = CHR ''Z'')"
| "is_iso8601 _ = False"

fun canonical_time :: "tstamp \<Rightarrow> bool" where
  "canonical_time TNull = True"
| "canonical_time (TStr s) = is_iso8601 s"
| "canonical_time (TNum n) = False"

fun canonical_entries :: "entry list \<Rightarrow> bool" where
  "canonical_entries [] = True"
| "canonical_entries (Entry n s e (Val xs) c # es) =
     (canonical_time s \<and> canonical_time e \<and> xs \<noteq> [] \<and> canonical_entries xs \<and> canonical_entries es)"
| "canonical_entries (Entry n s e Undefined c # es) =
     (canonical_time s \<and> canonical_time e \<and> canonical_entries es)"
| "canonical_entries (Entry n s e Null c # es) = False"

text \<open>
  The conversion of the moment library at the timestamp of the examples: 1700000000
  seconds after the epoch is 2023-11-14T22:13:20.000Z. Other values are not tabulated.
\<close>

definition toISO_sample :: "tstamp \<Rightarrow> string option" where
  "toISO_sample t =
     (if t = TNum 1700000000 \<or> t = TStr ''1700000000'' then Some ''2023-11-14T22:13:20.000Z''
      else None)"

definition sample_tracker :: tracker where
  "sample_tracker =
     \<lparr>entries =
        [Entry ''Work'' TNull TNull
           (Val [Entry ''Part 1'' (TStr ''2024-01-01T09:00:00.000Z'') (TStr ''2024-01-01T10:00:00.000Z'') Undefined None,
                 Entry ''Part 2'' (TStr ''2024-01-01T11:00:00.000Z'') TNull Undefined None])
           (Some True)],
      targetTime = Some ''2h''\<rparr>"


text \<open>
  Documents and trackers of the examples: a document with one block holding the empty
  tracker; a tracker with a target time; a document with a block that does not parse
  and a block with a running entry whose name has two dollar signs; a running tracker.
\<close>

definition sample_document :: string where
  "sample_document = fence_tag @ [CHR 0x0A] @ ''{\"entries\":[]}'' @ [CHR 0x0A] @ fence"

definition hour_tracker :: tracker where
  "hour_tracker = \<lparr>entries = [], targetTime = Some ''1h''\<rparr>"

definition dollar_document :: string where
  "dollar_document =
     block_open @ ''{bad'' @ block_close @ [CHR 0x0A]
     @ block_open @ ''{\"entries\":[{\"name\":\"a$$b\",\"startTime\":\"2024-01-01T09:00:00.000Z\",\"endTime\":null}]}''
     @ block_close"


text \<open>
  The parser is driven by a fuel counter that stands for the depth of the recursion of
  \<open>JSON.parse\<close>. A parser \<open>p\<close> is adequate at fuel \<open>F\<close> when every success at \<open>F\<close>
  consumes input and is reproduced by every fuel not smaller than the number of characters
  consumed.
\<close>

definition adequate :: "(nat \<Rightarrow> string \<Rightarrow> ('a \<times> string) option) \<Rightarrow> nat \<Rightarrow> bool" where
  "adequate p F = (\<forall>s x r. p F s = Some (x, r) \<longrightarrow>
      length r < length s \<and> (\<forall>f. length s - length r \<le> f \<longrightarrow> p f s = Some (x, r)))"

text \<open>
  Documents as the plugin leaves them. A block is the opening fence line, the
  serialization of a tracker and the closing fence; a document is a piece of text \<open>h\<close>
  followed by blocks, each with the text \<open>tx\<close> that comes after it. Text is plain when it
  holds no backtick.
\<close>

definition block :: "tracker \<Rightarrow> string" where
  "block t = block_open @ encode t @ block_close"

definition blocks :: "(tracker \<times> string) list \<Rightarrow> string" where
  "blocks bs = concat (map (\<lambda>(t, tx). block t @ tx) bs)"


definition plain :: "string \<Rightarrow> bool" where
  "plain s = (CHR 0x60 \<notin> set s)"











section \<open>Properties\<close>

lemma show_nat_digit: "n < 10 \<Longrightarrow> show_nat n = [digit_char n]"
  by (simp add: show_nat.simps)

lemma show_nat_2: "show_nat (Suc (Suc 0)) = ''2''"
  by (simp add: show_nat_digit digit_char_def)

lemma show_nat_3: "show_nat (Suc (Suc (Suc 0))) = ''3''"
  by (simp add: show_nat_digit digit_char_def)

lemma startSubEntry_leaf:
  "(\<forall>xs. sub \<noteq> Val xs) \<Longrightarrow>
     startSubEntry now (Entry n s e sub c) [] =
       Entry n TNull TNull
         (Val [Entry ''Part 1'' s e sub c, Entry ''Part 2'' (TStr now) TNull Undefined None]) c"
  by (cases sub) (simp_all add: startSubEntry_def show_nat_2)

lemma startSubEntry_container:
  "startSubEntry now (Entry n s e (Val subs) c) [] =
     Entry n s e
       (Val (subs @ [Entry (''Part '' @ show_nat (length subs + 1)) (TStr now) TNull Undefined None])) c"
  by (simp add: startSubEntry_def)

lemma startSubEntry_twice:
  "entries (startNewEntry now0 \<lparr>entries = [], targetTime = tt\<rparr> ''Work'') = [w] \<Longrightarrow>
     name w = ''Work'' \<and>
     (\<exists>kids. subEntries (startSubEntry now2 (startSubEntry now1 w []) []) = Val kids \<and>
        map name kids = [''Part 1'', ''Part 2'', ''Part 3''])"
  by (auto simp: startNewEntry_def startSubEntry_def show_nat_2 show_nat_3)

text \<open>
  Claim C8. \<open>startSubEntry(entry, "")\<close> on a leaf makes it a container: the first child
  is named \<open>Part 1\<close> and carries the former start and end time of the leaf, the parent's
  own times are cleared, and a running child named \<open>Part 2\<close> is appended. On a container
  with \<open>k\<close> children the appended child is named \<open>Part k+1\<close>. Called twice on the leaf
  that \<open>startNewEntry\<close> makes for the name \<open>Work\<close>, the children are named \<open>Part 1\<close>,
  \<open>Part 2\<close>, \<open>Part 3\<close>.
\<close>

theorem startSubEntry_parts:
  "((\<forall>xs. sub \<noteq> Val xs) \<longrightarrow>
     startSubEntry now (Entry n s e sub c) [] =
       Entry n TNull TNull
         (Val [Entry ''Part 1'' s e sub c, Entry ''Part 2'' (TStr now) TNull Undefined None]) c)
   \<and> startSubEntry now (Entry n s e (Val subs) c) [] =
       Entry n s e
         (Val (subs @ [Entry (''Part '' @ show_nat (length subs + 1)) (TStr now) TNull Undefined None])) c
   \<and> (entries (startNewEntry now0 \<lparr>entries = [], targetTime = tt\<rparr> ''Work'') = [w] \<longrightarrow>
       name w = ''Work'' \<and>
       (\<exists>kids. subEntries (startSubEntry now2 (startSubEntry now1 w []) []) = Val kids \<and>
          map name kids = [''Part 1'', ''Part 2'', ''Part 3'']))"
  using startSubEntry_leaf [of sub now n s e c] startSubEntry_container [of now n s e subs c]
        startSubEntry_twice [of now0 tt w now2 now1]
  by blast

theorem startSubEntry_parts_witness:
  "startSubEntry ''t1'' (Entry ''Work'' (TStr ''t0'') TNull Undefined None) [] =
     Entry ''Work'' TNull TNull
       (Val [Entry ''Part 1'' (TStr ''t0'') TNull Undefined None,
             Entry ''Part 2'' (TStr ''t1'') TNull Undefined None]) None
   \<and> entries (startNewEntry ''t0'' \<lparr>entries = [], targetTime = None\<rparr> ''Work'')
       = [Entry ''Work'' (TStr ''t0'') TNull Undefined None]
   \<and> (\<exists>kids. subEntries (startSubEntry ''t2''
         (startSubEntry ''t1'' (Entry ''Work'' (TStr ''t0'') TNull Undefined None) []) []) = Val kids \<and>
        map name kids = [''Part 1'', ''Part 2'', ''Part 3''])"
proof -
  have new: "entries (startNewEntry ''t0'' \<lparr>entries = [], targetTime = None\<rparr> ''Work'')
       = [Entry ''Work'' (TStr ''t0'') TNull Undefined None]"
    by (simp add: startNewEntry_def)
  note inst = startSubEntry_parts [where sub = Undefined and now = "''t1''" and n = "''Work''"
          and s = "TStr ''t0''" and e = TNull and c = None and subs = "[]" and ?now0.0 = "''t0''"
          and tt = None and w = "Entry ''Work'' (TStr ''t0'') TNull Undefined None"
          and ?now2.0 = "''t2''" and ?now1.0 = "''t1''"]
  from inst have one: "startSubEntry ''t1'' (Entry ''Work'' (TStr ''t0'') TNull Undefined None) [] =
     Entry ''Work'' TNull TNull
       (Val [Entry ''Part 1'' (TStr ''t0'') TNull Undefined None,
             Entry ''Part 2'' (TStr ''t1'') TNull Undefined None]) None"
    by blast
  from inst new have two: "\<exists>kids. subEntries (startSubEntry ''t2''
         (startSubEntry ''t1'' (Entry ''Work'' (TStr ''t0'') TNull Undefined None) []) []) = Val kids \<and>
        map name kids = [''Part 1'', ''Part 2'', ''Part 3'']"
    by blast
  from one new two show ?thesis by blast
qed


subsection \<open>Running entries\<close>


lemma shift_None [simp]: "shift x = None \<longleftrightarrow> x = None"
  by (cases x rule: shift.cases) auto

lemma getRunningEntry_None: "getRunningEntry es = None \<longleftrightarrow> count_running es = 0"
  by (induction es rule: getRunningEntry.induct) (auto split: option.splits)

lemma count_running_append: "count_running (xs @ ys) = count_running xs + count_running ys"
  by (induction xs rule: count_running.induct) auto

lemma isRunning_count: "isRunning t \<longleftrightarrow> 1 \<le> count_running (entries t)"
  using getRunningEntry_None [of "entries t"] by (auto simp: isRunning_def)

lemma startNewEntry_count:
  "count_running (entries (startNewEntry now t nm)) = count_running (entries t) + 1"
  by (simp add: startNewEntry_def Let_def count_running_append)

text \<open>
  Claim C3, as the code has it. \<open>isRunning\<close> holds exactly when the tree has at least
  one running leaf (an entry without sub-entry array whose \<open>endTime\<close> is null or
  otherwise falsy); where the tree has at most one running leaf this is exactly one.
  Starting a new entry on a tracker that is not running gives exactly one running leaf.
\<close>

theorem isRunning_iff_some_running_leaf:
  "(isRunning t \<longleftrightarrow> 1 \<le> count_running (entries t))
   \<and> (count_running (entries t) \<le> 1 \<longrightarrow> (isRunning t \<longleftrightarrow> count_running (entries t) = 1))
   \<and> (\<not> isRunning t \<longrightarrow> count_running (entries (startNewEntry now t nm)) = 1)"
  using isRunning_count [of t] startNewEntry_count [of now t nm] by auto

theorem isRunning_iff_some_running_leaf_witness:
  "count_running (entries \<lparr>entries = [], targetTime = None\<rparr>) \<le> 1
   \<and> \<not> isRunning \<lparr>entries = [], targetTime = None\<rparr>
   \<and> count_running (entries (startNewEntry ''2024-01-01T09:00:00.000Z'' \<lparr>entries = [], targetTime = None\<rparr> [])) = 1
   \<and> isRunning (startNewEntry ''2024-01-01T09:00:00.000Z'' \<lparr>entries = [], targetTime = None\<rparr> [])"
  using isRunning_iff_some_running_leaf [of "\<lparr>entries = [], targetTime = None\<rparr>" "''2024-01-01T09:00:00.000Z''" "[]"]
        isRunning_iff_some_running_leaf [of "startNewEntry ''2024-01-01T09:00:00.000Z'' \<lparr>entries = [], targetTime = None\<rparr> []" "[]" "[]"]
  by (simp add: isRunning_def)

text \<open>
  A tracker with two running leaves is running, so \<open>isRunning\<close> does not imply that
  there is exactly one running leaf. Such trackers arise when the end time of a stopped
  entry is cleared in the editor while another entry runs.
\<close>

theorem isRunning_exactly_one_counterexample:
  "isRunning two_running \<and> count_running (entries two_running) = 2"
  by (simp add: isRunning_def two_running_def)


subsection \<open>Removal and flattening\<close>

lemma wf_entries_append: "wf_entries (xs @ ys) \<longleftrightarrow> wf_entries xs \<and> wf_entries ys"
  by (induction xs rule: wf_entries.induct) auto

lemma wf_entries_all: "wf_entries es \<longleftrightarrow> (\<forall>e \<in> set es. wf_entries [e])"
  by (induction es rule: wf_entries.induct) auto

lemma wf_entries_nth: "wf_entries es \<Longrightarrow> i < length es \<Longrightarrow> wf_entries [es ! i]"
  using wf_entries_all [of es] by auto

lemma wf_entries_update: "wf_entries es \<Longrightarrow> wf_entries [e] \<Longrightarrow> wf_entries (es[i := e])"
  using set_update_subset_insert [of es i e] wf_entries_all [of es] wf_entries_all [of "es[i := e]"]
  by auto

lemma wf_entries_remove: "wf_entries es \<Longrightarrow> wf_entries (take i es @ drop (Suc i) es)"
  using wf_entries_all [of es] wf_entries_all [of "take i es @ drop (Suc i) es"]
  by (auto dest: in_set_takeD in_set_dropD)

lemma removeEntry_length: "length es - 1 \<le> length (fst (removeEntry es p))"
proof (cases p)
  case Nil
  then show ?thesis by simp
next
  case (Cons i q)
  show ?thesis
  proof (cases q)
    case Nil
    with Cons show ?thesis by auto
  next
    case (Cons j r)
    obtain n s e sub c where ei: "es ! i = Entry n s e sub c" by (cases "es ! i")
    obtain subs' ok where r: "\<And>subs. sub = Val subs \<Longrightarrow> removeEntry subs (j # r) = (subs' , ok)"
      by (cases sub; cases "removeEntry (case sub of Val x \<Rightarrow> x) (j # r)") auto
    show ?thesis
      using \<open>p = i # q\<close> Cons ei r by (cases sub; cases ok) auto
  qed
qed

lemma removeEntry_wf: "wf_entries es \<Longrightarrow> wf_entries (fst (removeEntry es p))"
proof (induction es p rule: removeEntry.induct)
  case (1 es)
  then show ?case by simp
next
  case (2 es i)
  then show ?case by (simp add: wf_entries_remove)
next
  case (3 es i j p)
  show ?case
  proof (cases "i < length es")
    case False
    with 3 show ?thesis by simp
  next
    case True
    obtain n s e sub c where ei: "es ! i = Entry n s e sub c" by (cases "es ! i")
    show ?thesis
    proof (cases sub)
      case (Val subs)
      obtain subs' ok where r: "removeEntry subs (j # p) = (subs', ok)" by (cases "removeEntry subs (j # p)")
      from 3(2) True ei Val have wfi: "wf_entries [Entry n s e (Val subs) c]"
        using wf_entries_nth [of es i] by simp
      then have "wf_entries subs" "2 \<le> length subs" by simp_all
      with 3(1) [OF True ei [unfolded Val]] r have wfs': "wf_entries subs'" by simp
      from removeEntry_length [of subs "j # p"] r \<open>2 \<le> length subs\<close> have "1 \<le> length subs'" by simp
      then have "length subs' \<noteq> 1 \<Longrightarrow> wf_entries [Entry n s e (Val subs') c]"
        using wfs' by simp
      with True ei Val r 3(2) show ?thesis
        by (cases ok) (auto intro!: wf_entries_update)
    qed (use 3 True ei in auto)
  qed
qed



lemma removeEntry_flatten_local:
  assumes "i < length es" "es ! i = Entry n s e (Val [a, b]) c" "j < 2"
  shows "removeEntry es [i, j] =
           (es[i := Entry n (startTime ([a, b] ! (1 - j))) (endTime ([a, b] ! (1 - j))) Undefined c], True)"
proof -
  from assms(3) have "j = 0 \<or> j = 1" by auto
  then show ?thesis using assms(1,2) by auto
qed

lemma removeEntry_deep_length':
  "length (fst (removeEntry es (i # j # p))) = length es"
proof -
  obtain n s e sub c where ei: "es ! i = Entry n s e sub c" by (cases "es ! i")
  obtain subs' ok where r: "\<And>subs. sub = Val subs \<Longrightarrow> removeEntry subs (j # p) = (subs' , ok)"
    by (cases sub; cases "removeEntry (case sub of Val x \<Rightarrow> x) (j # p)") auto
  show ?thesis using ei r by (cases sub; cases ok) auto
qed

lemma removeEntry_deep_length:
  "p \<noteq> [] \<Longrightarrow> length (fst (removeEntry es (i # p))) = length es"
  using removeEntry_deep_length' [of es i "hd p" "tl p"] by (cases p) simp_all

lemma entry_at_Cons2:
  "i < length es \<Longrightarrow> es ! i = Entry n s e (Val subs) c \<Longrightarrow> p \<noteq> [] \<Longrightarrow>
     entry_at es (i # p) = entry_at subs p"
  by (cases p) auto

lemma removeEntry_flatten_deep:
  assumes "wf_entries es" "entry_at es q = Some (Entry n s e (Val [a, b]) c)" "j < 2"
  shows "snd (removeEntry es (q @ [j])) \<and>
         entry_at (fst (removeEntry es (q @ [j]))) q =
           Some (Entry n (startTime ([a, b] ! (1 - j))) (endTime ([a, b] ! (1 - j))) Undefined c)"
  using assms
proof (induction es q rule: entry_at.induct)
  case (1 es)
  then show ?case by simp
next
  case (2 es i)
  then have "i < length es" "es ! i = Entry n s e (Val [a, b]) c"
    by (auto split: if_splits)
  with removeEntry_flatten_local [OF this \<open>j < 2\<close>] show ?case by simp
next
  case (3 es i k p)
  from 3(3) have il: "i < length es" by (auto split: if_splits)
  obtain n' s' e' sub' c' where ei: "es ! i = Entry n' s' e' sub' c'" by (cases "es ! i")
  with 3(3) il obtain subs where sub': "sub' = Val subs"
    by (cases sub') auto
  with 3(3) il ei have at: "entry_at subs (k # p) = Some (Entry n s e (Val [a, b]) c)" by simp
  from 3(2) il ei sub' have wfi: "wf_entries [Entry n' s' e' (Val subs) c']"
    using wf_entries_nth [of es i] by simp
  then have wfs: "wf_entries subs" and len: "2 \<le> length subs" by simp_all
  have sub_eq: "subEntries (es ! i) = Val subs" using ei sub' by simp
  note ih = 3(1) [OF il sub_eq wfs at \<open>j < 2\<close>]
  obtain subs' ok where r: "removeEntry subs ((k # p) @ [j]) = (subs', ok)"
    by (cases "removeEntry subs ((k # p) @ [j])")
  with ih have ok: "ok" and at': "entry_at subs' (k # p) =
      Some (Entry n (startTime ([a, b] ! (1 - j))) (endTime ([a, b] ! (1 - j))) Undefined c)"
    by simp_all
  have "length subs' = length subs"
    using removeEntry_deep_length [of "p @ [j]" subs k] r by simp
  with len have ne1: "length subs' \<noteq> 1" by simp
  have "removeEntry es ((i # k # p) @ [j]) = (es[i := Entry n' s' e' (Val subs') c'], True)"
    using il ei sub' r ok ne1 by simp
  moreover have "entry_at (es[i := Entry n' s' e' (Val subs') c']) (i # k # p) = entry_at subs' (k # p)"
    using il by simp
  ultimately show ?case using at' by simp
qed

lemma removeEntry_drops_grandchildren:
  assumes "i < length es" "es ! i = Entry n s e (Val [a, b]) c" "j < 2"
      and "subEntries ([a, b] ! (1 - j)) = Val gs" "k < length gs"
  shows "entry_at es [i, 1 - j, k] = Some (gs ! k)"
    and "removeEntry es [i, j] =
           (es[i := Entry n (startTime ([a, b] ! (1 - j))) (endTime ([a, b] ! (1 - j))) Undefined c], True)"
    and "entry_at (fst (removeEntry es [i, j])) (i # p) = (if p = [] then
           Some (Entry n (startTime ([a, b] ! (1 - j))) (endTime ([a, b] ! (1 - j))) Undefined c) else None)"
proof -
  from assms(3) have j: "j = 0 \<or> j = 1" by auto
  show "entry_at es [i, 1 - j, k] = Some (gs ! k)"
    using j assms by auto
  show r: "removeEntry es [i, j] =
           (es[i := Entry n (startTime ([a, b] ! (1 - j))) (endTime ([a, b] ! (1 - j))) Undefined c], True)"
    by (rule removeEntry_flatten_local [OF assms(1-3)])
  show "entry_at (fst (removeEntry es [i, j])) (i # p) = (if p = [] then
           Some (Entry n (startTime ([a, b] ! (1 - j))) (endTime ([a, b] ! (1 - j))) Undefined c) else None)"
    using assms(1) by (cases p) (simp_all add: r del: removeEntry.simps)
qed


lemma startSubEntry_wf: "wf_entries [e] \<Longrightarrow> wf_entries [startSubEntry now e nm]"
  by (cases e; cases "subEntries e") (auto simp: startSubEntry_def Let_def wf_entries_append)

lemma startNewEntry_wf: "wf_entries (entries t) \<Longrightarrow> wf_entries (entries (startNewEntry now t nm))"
  by (simp add: startNewEntry_def Let_def wf_entries_append)

lemma update_at_length [simp]: "length (update_at f p es) = length es"
  by (induction f p es rule: update_at.induct) (auto split: entry.splits field.splits)

lemma set_endTime_wf: "wf_entries [e] \<Longrightarrow> wf_entries [set_endTime t e]"
  by (cases e; cases "subEntries e") auto

lemma update_at_set_endTime_wf: "wf_entries es \<Longrightarrow> wf_entries (update_at (set_endTime t) p es)"
proof (induction "set_endTime t" p es rule: update_at.induct)
  case (1 es)
  then show ?case by simp
next
  case (2 i es)
  then show ?case by (auto intro!: wf_entries_update set_endTime_wf wf_entries_nth)
next
  case (3 i j p es)
  show ?case
  proof (cases "i < length es")
    case False
    with 3 show ?thesis by simp
  next
    case True
    obtain n s e sub c where ei: "es ! i = Entry n s e sub c" by (cases "es ! i")
    show ?thesis
    proof (cases sub)
      case (Val subs)
      from 3(2) True ei Val have "wf_entries [Entry n s e (Val subs) c]"
        using wf_entries_nth [of es i] by simp
      then have "wf_entries subs" "2 \<le> length subs" by simp_all
      with 3(1) [OF True ei [unfolded Val]]
      have "wf_entries [Entry n s e (Val (update_at (set_endTime t) (j # p) subs)) c]" by simp
      with True ei Val 3(2) show ?thesis by (auto intro!: wf_entries_update)
    qed (use 3 True ei in auto)
  qed
qed

lemma endRunningEntryInSegment_wf:
  "wf_entries [e] \<Longrightarrow> wf_entries [endRunningEntryInSegment now e]"
  by (cases e; cases "subEntries e")
     (auto simp: endRunningEntryInSegment_def update_at_set_endTime_wf split: option.splits)

text \<open>
  Claim C6. In a tree where every container has at least two children: when
  \<open>removeEntry\<close> removes one of the two children of a container, the call returns
  true and the container has become a leaf (no \<open>subEntries\<close>) whose \<open>startTime\<close> and
  \<open>endTime\<close> are those of the surviving sibling. No mutation (\<open>removeEntry\<close> of any
  target, \<open>startSubEntry\<close>, \<open>endRunningEntryInSegment\<close>, \<open>startNewEntry\<close>) leaves a
  container with no child or with one child. The flatten step itself needs no assumption
  on the tree: in any list \<open>fs\<close> of entries, removing one of the two children of the
  container \<open>fs ! k\<close> replaces it by the leaf that carries the times of the other child.
\<close>

theorem removeEntry_flatten_invariant:
  assumes "wf_entries es"
  shows "(entry_at es q = Some (Entry n s e (Val [a, b]) c) \<and> j < 2 \<longrightarrow>
            snd (removeEntry es (q @ [j])) \<and>
            entry_at (fst (removeEntry es (q @ [j]))) q =
              Some (Entry n (startTime ([a, b] ! (1 - j))) (endTime ([a, b] ! (1 - j))) Undefined c))
         \<and> wf_entries (fst (removeEntry es p))
         \<and> (i < length es \<longrightarrow> wf_entries (es[i := startSubEntry now (es ! i) nm]))
         \<and> (i < length es \<longrightarrow> wf_entries (es[i := endRunningEntryInSegment now (es ! i)]))
         \<and> wf_entries (entries (startNewEntry now \<lparr>entries = es, targetTime = tt\<rparr> nm))
         \<and> (k < length fs \<and> fs ! k = Entry n' s' e' (Val [a', b']) c' \<and> j' < 2 \<longrightarrow>
              removeEntry fs [k, j'] =
                (fs[k := Entry n' (startTime ([a', b'] ! (1 - j'))) (endTime ([a', b'] ! (1 - j'))) Undefined c'],
                 True))"
proof -
  have "k < length fs \<and> fs ! k = Entry n' s' e' (Val [a', b']) c' \<and> j' < 2 \<longrightarrow>
        removeEntry fs [k, j'] =
          (fs[k := Entry n' (startTime ([a', b'] ! (1 - j'))) (endTime ([a', b'] ! (1 - j'))) Undefined c'],
           True)"
    using removeEntry_flatten_local [of k fs n' s' e' a' b' c' j'] by blast
  moreover have "i < length es \<Longrightarrow> wf_entries (es[i := startSubEntry now (es ! i) nm])"
    using assms by (intro wf_entries_update startSubEntry_wf wf_entries_nth)
  moreover have "i < length es \<Longrightarrow> wf_entries (es[i := endRunningEntryInSegment now (es ! i)])"
    using assms by (intro wf_entries_update endRunningEntryInSegment_wf wf_entries_nth)
  moreover have "wf_entries (entries (startNewEntry now \<lparr>entries = es, targetTime = tt\<rparr> nm))"
    using assms startNewEntry_wf [of "\<lparr>entries = es, targetTime = tt\<rparr>" now nm] by simp
  ultimately show ?thesis
    using removeEntry_flatten_deep [OF assms, of q n s e a b c j] removeEntry_wf [OF assms, of p]
    by blast
qed

theorem removeEntry_flatten_invariant_witness:
  "wf_entries [Entry ''Job'' TNull TNull
       (Val [Entry ''Part 1'' (TStr ''2024-01-01T09:00:00.000Z'') (TStr ''2024-01-01T10:00:00.000Z'') Undefined None,
             Entry ''Part 2'' (TStr ''2024-01-01T11:00:00.000Z'') (TStr ''2024-01-01T12:00:00.000Z'') Undefined None])
       None]
   \<and> removeEntry [Entry ''Job'' TNull TNull
       (Val [Entry ''Part 1'' (TStr ''2024-01-01T09:00:00.000Z'') (TStr ''2024-01-01T10:00:00.000Z'') Undefined None,
             Entry ''Part 2'' (TStr ''2024-01-01T11:00:00.000Z'') (TStr ''2024-01-01T12:00:00.000Z'') Undefined None])
       None] [0, 0]
     = ([Entry ''Job'' (TStr ''2024-01-01T11:00:00.000Z'') (TStr ''2024-01-01T12:00:00.000Z'') Undefined None], True)
   \<and> wf_entries (fst (removeEntry [Entry ''Job'' TNull TNull
       (Val [Entry ''Part 1'' (TStr ''2024-01-01T09:00:00.000Z'') (TStr ''2024-01-01T10:00:00.000Z'') Undefined None,
             Entry ''Part 2'' (TStr ''2024-01-01T11:00:00.000Z'') (TStr ''2024-01-01T12:00:00.000Z'') Undefined None])
       None] [0, 0]))"
proof -
  let ?a = "Entry ''Part 1'' (TStr ''2024-01-01T09:00:00.000Z'') (TStr ''2024-01-01T10:00:00.000Z'') Undefined None"
  let ?b = "Entry ''Part 2'' (TStr ''2024-01-01T11:00:00.000Z'') (TStr ''2024-01-01T12:00:00.000Z'') Undefined None"
  let ?es = "[Entry ''Job'' TNull TNull (Val [?a, ?b]) None]"
  have wf: "wf_entries ?es" by simp
  have at: "entry_at ?es [0] = Some (Entry ''Job'' TNull TNull (Val [?a, ?b]) None)" by simp
  note inst = removeEntry_flatten_invariant [OF wf, where q = "[0]" and n = "''Job''" and s = TNull
      and e = TNull and a = ?a and b = ?b and c = None and j = 0 and p = "[0, 0]"]
  from inst at have "wf_entries (fst (removeEntry ?es [0, 0]))" by blast
  moreover have "removeEntry ?es [0, 0] =
      ([Entry ''Job'' (TStr ''2024-01-01T11:00:00.000Z'') (TStr ''2024-01-01T12:00:00.000Z'') Undefined None], True)"
    by simp
  ultimately show ?thesis using wf by blast
qed

text \<open>
  Claim C7. When the child that survives the removal is itself a container, the flatten
  step copies its \<open>startTime\<close> and \<open>endTime\<close> to the parent and sets the parent's
  \<open>subEntries\<close> to \<open>undefined\<close>: the call returns true, the parent is a leaf, and the
  grandchildren, reachable before the call, are under no path of the tree after it.
\<close>

theorem removeEntry_flatten_discards_grandchildren:
  assumes "i < length es" "es ! i = Entry n s e (Val [a, b]) c" "j < 2"
      and "subEntries ([a, b] ! (1 - j)) = Val gs" "k < length gs"
  shows "entry_at es [i, 1 - j, k] = Some (gs ! k)
       \<and> removeEntry es [i, j] =
           (es[i := Entry n (startTime ([a, b] ! (1 - j))) (endTime ([a, b] ! (1 - j))) Undefined c], True)
       \<and> (\<forall>p. entry_at (fst (removeEntry es [i, j])) (i # p) = (if p = [] then
           Some (Entry n (startTime ([a, b] ! (1 - j))) (endTime ([a, b] ! (1 - j))) Undefined c) else None))"
  using removeEntry_drops_grandchildren [OF assms] by blast

theorem removeEntry_flatten_discards_grandchildren_witness:
  "removeEntry [Entry ''Job'' TNull TNull
       (Val [Entry ''Prep'' (TStr ''2024-01-01T08:00:00.000Z'') (TStr ''2024-01-01T09:00:00.000Z'') Undefined None,
             Entry ''Build'' TNull TNull
               (Val [Entry ''Part 1'' (TStr ''2024-01-01T09:00:00.000Z'') (TStr ''2024-01-01T10:00:00.000Z'') Undefined None,
                     Entry ''Part 2'' (TStr ''2024-01-01T11:00:00.000Z'') (TStr ''2024-01-01T12:00:00.000Z'') Undefined None])
               None])
       None] [0, 0]
     = ([Entry ''Job'' TNull TNull Undefined None], True)"
proof -
  let ?a = "Entry ''Prep'' (TStr ''2024-01-01T08:00:00.000Z'') (TStr ''2024-01-01T09:00:00.000Z'') Undefined None"
  let ?g1 = "Entry ''Part 1'' (TStr ''2024-01-01T09:00:00.000Z'') (TStr ''2024-01-01T10:00:00.000Z'') Undefined None"
  let ?g2 = "Entry ''Part 2'' (TStr ''2024-01-01T11:00:00.000Z'') (TStr ''2024-01-01T12:00:00.000Z'') Undefined None"
  let ?b = "Entry ''Build'' TNull TNull (Val [?g1, ?g2]) None"
  let ?es = "[Entry ''Job'' TNull TNull (Val [?a, ?b]) None]"
  have "removeEntry ?es [0, 0] =
           (?es[0 := Entry ''Job'' (startTime ([?a, ?b] ! (1 - 0))) (endTime ([?a, ?b] ! (1 - 0))) Undefined None], True)"
    using removeEntry_flatten_discards_grandchildren [of 0 ?es "''Job''" TNull TNull ?a ?b None 0 "[?g1, ?g2]" 0]
    by simp
  then show ?thesis by simp
qed

subsection \<open>Fuel of the parser\<close>

text \<open>
  \<open>JSON_parse\<close> starts the parser with as much fuel as the text has characters. The lemmas
  below show that this is always enough: whatever some amount of fuel parses, the length of
  the text parses to the same value, so that the fuel never turns a text that
  \<open>JSON.parse\<close> accepts into a syntax error of the model.
\<close>

lemma skip_ws_length: "length (skip_ws s) \<le> length s"
  by (simp add: skip_ws_def length_dropWhile_le)

lemma skip_ws_Cons_length: "skip_ws s = d # ds \<Longrightarrow> length ds < length s"
  using skip_ws_length [of s] by simp

lemma parse_chars_length: "parse_chars s = Some (x, r) \<Longrightarrow> length r < length s"
proof (induction s arbitrary: x rule: parse_chars.induct)
  case 1
  then show ?case by simp
next
  case (2 c cs)
  show ?case
  proof (cases "c = CHR 0x22")
    case True
    with 2(4) show ?thesis by simp
  next
    case nq: False
    show ?thesis
    proof (cases "c = CHR 0x5C")
      case False
      with nq 2(4) obtain y where "parse_chars cs = Some (y, r)"
        by (auto split: if_splits)
      with 2(3) [OF nq False] 2(4) nq False show ?thesis by (fastforce split: if_splits)
    next
      case True
      show ?thesis
      proof (cases cs)
        case Nil
        with nq True 2(4) show ?thesis by simp
      next
        case (Cons e cs1)
        show ?thesis
        proof (cases "e = CHR ''u''")
          case False
          with nq True Cons 2(4) obtain y z where "unescape e = Some z" "parse_chars cs1 = Some (y, r)"
            by (auto split: option.splits)
          with 2(2) [OF nq True Cons False] show ?thesis using Cons by fastforce
        next
          case u: True
          with nq True Cons 2(4) obtain h1 h2 h3 h4 cs2 where c1: "cs1 = h1 # h2 # h3 # h4 # cs2"
            by (auto split: list.splits)
          with nq True Cons u 2(4) obtain y z where "hex4 h1 h2 h3 h4 = Some z" "parse_chars cs2 = Some (y, r)"
            by (auto split: option.splits)
          with 2(1) [OF nq True Cons u c1] show ?thesis using Cons c1 by fastforce
        qed
      qed
    qed
  qed
qed

lemma parse_number_length: "parse_number s = Some (x, r) \<Longrightarrow> length r < length s"
proof -
  assume a: "parse_number s = Some (x, r)"
  define s1 where "s1 = (if s \<noteq> [] \<and> hd s = CHR ''-'' then tl s else s)"
  from a have r: "r = dropWhile is_digit s1" and ne: "takeWhile is_digit s1 \<noteq> []"
    by (auto simp: parse_number_def Let_def s1_def split: if_splits)
  have "length (takeWhile is_digit s1) + length (dropWhile is_digit s1) = length s1"
    by (metis length_append takeWhile_dropWhile_id)
  with ne have "length (dropWhile is_digit s1) < length s1" by (cases "takeWhile is_digit s1") auto
  moreover have "length s1 \<le> length s" by (simp add: s1_def)
  ultimately show ?thesis using r by simp
qed

lemma parse_literal_length: "parse_literal s = Some (x, r) \<Longrightarrow> length r < length s"
  by (cases s) (auto simp: parse_literal_def split: if_splits)

lemma pv_leaf_fuel:
  "c \<noteq> CHR ''['' \<Longrightarrow> c \<noteq> CHR ''{'' \<Longrightarrow> parse_value (Suc f) (c # cs) = parse_value (Suc 0) (c # cs)"
  by simp

lemma pv_leaf_length:
  assumes "c \<noteq> CHR ''[''" "c \<noteq> CHR ''{''" "parse_value (Suc 0) (c # cs) = Some (v, r)"
  shows "length r < length (c # cs)"
proof (cases "c = CHR 0x22")
  case True
  with assms obtain x where "parse_chars cs = Some (x, r)" by auto
  from parse_chars_length [OF this] show ?thesis by simp
next
  case False
  show ?thesis
  proof (cases "c = CHR ''-'' \<or> is_digit c")
    case True
    with False assms have "parse_number (c # cs) = Some (v, r)" by simp
    from parse_number_length [OF this] show ?thesis .
  next
    case nn: False
    with False assms have "parse_literal (c # cs) = Some (v, r)" by simp
    from parse_literal_length [OF this] show ?thesis .
  qed
qed

lemma adequateD:
  "adequate p F \<Longrightarrow> p F s = Some (x, r) \<Longrightarrow> length r < length s"
  "adequate p F \<Longrightarrow> p F s = Some (x, r) \<Longrightarrow> length s - length r \<le> f \<Longrightarrow> p f s = Some (x, r)"
  unfolding adequate_def by blast+

lemma pv_arr_inv:
  assumes "parse_value (Suc F) (CHR ''['' # cs) = Some (v, r)"
  shows "\<exists>d ds. skip_ws cs = d # ds \<and>
           (d = CHR '']'' \<and> r = ds \<and> v = JArr []
            \<or> d \<noteq> CHR '']'' \<and> (\<exists>vs. parse_elements F (d # ds) = Some (vs, r) \<and> v = JArr vs))"
proof (cases "skip_ws cs")
  case Nil
  with assms show ?thesis by simp
next
  case (Cons d ds)
  with assms show ?thesis by (cases "d = CHR '']''") auto
qed

lemma pv_obj_inv:
  assumes "parse_value (Suc F) (CHR ''{'' # cs) = Some (v, r)"
  shows "\<exists>d ds. skip_ws cs = d # ds \<and>
           (d = CHR ''}'' \<and> r = ds \<and> v = JObj []
            \<or> d \<noteq> CHR ''}'' \<and> (\<exists>ms. parse_members F (d # ds) = Some (ms, r)
                  \<and> v = JObj (foldl (\<lambda>acc (k, v). obj_put acc k v) [] ms)))"
proof (cases "skip_ws cs")
  case Nil
  with assms show ?thesis by simp
next
  case (Cons d ds)
  with assms show ?thesis by (cases "d = CHR ''}''") auto
qed

lemma pe_inv:
  assumes "parse_elements (Suc F) s = Some (vs, r)"
  shows "\<exists>v r1 d ds. parse_value F s = Some (v, r1) \<and> skip_ws r1 = d # ds \<and>
           (d = CHR '']'' \<and> vs = [v] \<and> r = ds
            \<or> d = CHR '','' \<and> (\<exists>vs'. parse_elements F (skip_ws ds) = Some (vs', r) \<and> vs = v # vs'))"
proof (cases "parse_value F s")
  case None
  with assms show ?thesis by simp
next
  case (Some p)
  obtain v r1 where p: "p = (v, r1)" by (cases p)
  show ?thesis
  proof (cases "skip_ws r1")
    case Nil
    with assms Some p show ?thesis by simp
  next
    case (Cons d ds)
    with assms Some p show ?thesis
      by (cases "d = CHR '']''"; cases "d = CHR '',''") auto
  qed
qed

lemma pm_inv:
  assumes "parse_members (Suc F) s = Some (ms, r)"
  shows "\<exists>cs k r0 ds v r1 d1 ds1.
           s = CHR 0x22 # cs \<and> parse_chars cs = Some (k, r0) \<and> skip_ws r0 = CHR '':'' # ds
           \<and> parse_value F (skip_ws ds) = Some (v, r1) \<and> skip_ws r1 = d1 # ds1 \<and>
           (d1 = CHR ''}'' \<and> ms = [(k, v)] \<and> r = ds1
            \<or> d1 = CHR '','' \<and> (\<exists>ms'. parse_members F (skip_ws ds1) = Some (ms', r) \<and> ms = (k, v) # ms'))"
proof -
  from assms obtain c cs where s: "s = c # cs" by (cases s) auto
  with assms have c: "c = CHR 0x22" by (auto split: if_splits)
  from assms s c obtain k r0 where pc: "parse_chars cs = Some (k, r0)"
    by (cases "parse_chars cs") auto
  from assms s c pc obtain d ds where sk: "skip_ws r0 = d # ds"
    by (cases "skip_ws r0") auto
  from assms s c pc sk have d: "d = CHR '':''" by (auto split: if_splits)
  from assms s c pc sk d obtain v r1 where pv: "parse_value F (skip_ws ds) = Some (v, r1)"
    by (cases "parse_value F (skip_ws ds)") auto
  from assms s c pc sk d pv obtain d1 ds1 where sk1: "skip_ws r1 = d1 # ds1"
    by (cases "skip_ws r1") auto
  from assms s c pc sk d pv sk1
  have "d1 = CHR ''}'' \<and> ms = [(k, v)] \<and> r = ds1
      \<or> d1 = CHR '','' \<and> (\<exists>ms'. parse_members F (skip_ws ds1) = Some (ms', r) \<and> ms = (k, v) # ms')"
    by (cases "d1 = CHR ''}''"; cases "d1 = CHR '',''") auto
  with s c pc sk d pv sk1 show ?thesis by blast
qed

lemma adequateI:
  assumes "\<And>s x r. p F s = Some (x, r) \<Longrightarrow> length r < length s"
      and "\<And>s x r f. p F s = Some (x, r) \<Longrightarrow> length s - length r \<le> f \<Longrightarrow> p f s = Some (x, r)"
  shows "adequate p F"
  unfolding adequate_def using assms by blast

lemma pv_step:
  assumes e: "adequate parse_elements F" and m: "adequate parse_members F"
  shows "adequate parse_value (Suc F)"
proof (rule adequateI)
  fix s v r assume a: "parse_value (Suc F) s = Some (v, r)"
  then obtain c cs where s: "s = c # cs" by (cases s) auto
  consider (arr) "c = CHR ''[''" | (obj) "c = CHR ''{''" | (leaf) "c \<noteq> CHR ''[''" "c \<noteq> CHR ''{''"
    by blast
  then show "length r < length s"
  proof cases
    case arr
    from pv_arr_inv [OF a [unfolded s arr]] obtain d ds where sk: "skip_ws cs = d # ds"
      and c: "d = CHR '']'' \<and> r = ds \<and> v = JArr []
            \<or> d \<noteq> CHR '']'' \<and> (\<exists>vs. parse_elements F (d # ds) = Some (vs, r) \<and> v = JArr vs)"
      by blast
    from c skip_ws_Cons_length [OF sk] adequateD(1) [OF e] s show ?thesis by fastforce
  next
    case obj
    from pv_obj_inv [OF a [unfolded s obj]] obtain d ds where sk: "skip_ws cs = d # ds"
      and c: "d = CHR ''}'' \<and> r = ds \<and> v = JObj []
            \<or> d \<noteq> CHR ''}'' \<and> (\<exists>ms. parse_members F (d # ds) = Some (ms, r)
                  \<and> v = JObj (foldl (\<lambda>acc (k, v). obj_put acc k v) [] ms))"
      by blast
    from c skip_ws_Cons_length [OF sk] adequateD(1) [OF m] s show ?thesis by fastforce
  next
    case leaf
    from a s pv_leaf_fuel [OF leaf, of F cs] have "parse_value (Suc 0) (c # cs) = Some (v, r)" by simp
    from pv_leaf_length [OF leaf this] s show ?thesis by simp
  qed
next
  fix s v r f assume a: "parse_value (Suc F) s = Some (v, r)" and f: "length s - length r \<le> f"
  then obtain c cs where s: "s = c # cs" by (cases s) auto
  consider (arr) "c = CHR ''[''" | (obj) "c = CHR ''{''" | (leaf) "c \<noteq> CHR ''[''" "c \<noteq> CHR ''{''"
    by blast
  then show "parse_value f s = Some (v, r)"
  proof cases
    case arr
    from pv_arr_inv [OF a [unfolded s arr]] obtain d ds where sk: "skip_ws cs = d # ds"
      and c: "d = CHR '']'' \<and> r = ds \<and> v = JArr []
            \<or> d \<noteq> CHR '']'' \<and> (\<exists>vs. parse_elements F (d # ds) = Some (vs, r) \<and> v = JArr vs)"
      by blast
    note len = skip_ws_Cons_length [OF sk]
    from c show ?thesis
    proof
      assume c1: "d = CHR '']'' \<and> r = ds \<and> v = JArr []"
      with f len s obtain f' where "f = Suc f'" by (cases f) auto
      with c1 sk s arr show ?thesis by simp
    next
      assume "d \<noteq> CHR '']'' \<and> (\<exists>vs. parse_elements F (d # ds) = Some (vs, r) \<and> v = JArr vs)"
      then obtain vs where d: "d \<noteq> CHR '']''" and pe: "parse_elements F (d # ds) = Some (vs, r)"
        and v: "v = JArr vs" by blast
      from adequateD(1) [OF e pe] have lr: "length r < length (d # ds)" .
      with f len s obtain f' where f': "f = Suc f'" by (cases f) auto
      with f len s have "length (d # ds) - length r \<le> f'" by simp
      from adequateD(2) [OF e pe this] have "parse_elements f' (d # ds) = Some (vs, r)" .
      with f' s arr sk d v show ?thesis by simp
    qed
  next
    case obj
    from pv_obj_inv [OF a [unfolded s obj]] obtain d ds where sk: "skip_ws cs = d # ds"
      and c: "d = CHR ''}'' \<and> r = ds \<and> v = JObj []
            \<or> d \<noteq> CHR ''}'' \<and> (\<exists>ms. parse_members F (d # ds) = Some (ms, r)
                  \<and> v = JObj (foldl (\<lambda>acc (k, v). obj_put acc k v) [] ms))"
      by blast
    note len = skip_ws_Cons_length [OF sk]
    from c show ?thesis
    proof
      assume c1: "d = CHR ''}'' \<and> r = ds \<and> v = JObj []"
      with f len s obtain f' where "f = Suc f'" by (cases f) auto
      with c1 sk s obj show ?thesis by simp
    next
      assume "d \<noteq> CHR ''}'' \<and> (\<exists>ms. parse_members F (d # ds) = Some (ms, r)
                  \<and> v = JObj (foldl (\<lambda>acc (k, v). obj_put acc k v) [] ms))"
      then obtain ms where d: "d \<noteq> CHR ''}''" and pm: "parse_members F (d # ds) = Some (ms, r)"
        and v: "v = JObj (foldl (\<lambda>acc (k, v). obj_put acc k v) [] ms)" by blast
      from adequateD(1) [OF m pm] have lr: "length r < length (d # ds)" .
      with f len s obtain f' where f': "f = Suc f'" by (cases f) auto
      with f len s have "length (d # ds) - length r \<le> f'" by simp
      from adequateD(2) [OF m pm this] have "parse_members f' (d # ds) = Some (ms, r)" .
      with f' s obj sk d v show ?thesis by simp
    qed
  next
    case leaf
    from a s pv_leaf_fuel [OF leaf, of F cs] have a0: "parse_value (Suc 0) (c # cs) = Some (v, r)" by simp
    from pv_leaf_length [OF leaf a0] s have "length r < length s" by simp
    with f obtain f' where "f = Suc f'" by (cases f) auto
    with a0 s pv_leaf_fuel [OF leaf, of f' cs] show ?thesis by simp
  qed
qed

lemma pe_step:
  assumes pv: "adequate parse_value F" and e: "adequate parse_elements F"
  shows "adequate parse_elements (Suc F)"
proof (rule adequateI)
  fix s vs r assume a: "parse_elements (Suc F) s = Some (vs, r)"
  from pe_inv [OF a] obtain v r1 d ds where v: "parse_value F s = Some (v, r1)"
    and sk: "skip_ws r1 = d # ds"
    and c: "d = CHR '']'' \<and> vs = [v] \<and> r = ds
            \<or> d = CHR '','' \<and> (\<exists>vs'. parse_elements F (skip_ws ds) = Some (vs', r) \<and> vs = v # vs')"
    by blast
  note l1 = adequateD(1) [OF pv v] and l2 = skip_ws_Cons_length [OF sk]
  from c show "length r < length s"
  proof
    assume "d = CHR '']'' \<and> vs = [v] \<and> r = ds"
    with l1 l2 show ?thesis by simp
  next
    assume "d = CHR '','' \<and> (\<exists>vs'. parse_elements F (skip_ws ds) = Some (vs', r) \<and> vs = v # vs')"
    then obtain vs' where "parse_elements F (skip_ws ds) = Some (vs', r)" by blast
    from adequateD(1) [OF e this] skip_ws_length [of ds] l1 l2 show ?thesis by simp
  qed
next
  fix s vs r f assume a: "parse_elements (Suc F) s = Some (vs, r)" and f: "length s - length r \<le> f"
  from pe_inv [OF a] obtain v r1 d ds where v: "parse_value F s = Some (v, r1)"
    and sk: "skip_ws r1 = d # ds"
    and c: "d = CHR '']'' \<and> vs = [v] \<and> r = ds
            \<or> d = CHR '','' \<and> (\<exists>vs'. parse_elements F (skip_ws ds) = Some (vs', r) \<and> vs = v # vs')"
    by blast
  note l1 = adequateD(1) [OF pv v] and l2 = skip_ws_Cons_length [OF sk]
  from c show "parse_elements f s = Some (vs, r)"
  proof
    assume c1: "d = CHR '']'' \<and> vs = [v] \<and> r = ds"
    with f l1 l2 obtain f' where f': "f = Suc f'" by (cases f) auto
    with f c1 l1 l2 have "length s - length r1 \<le> f'" by simp
    from adequateD(2) [OF pv v this] f' sk c1 show ?thesis by simp
  next
    assume "d = CHR '','' \<and> (\<exists>vs'. parse_elements F (skip_ws ds) = Some (vs', r) \<and> vs = v # vs')"
    then obtain vs' where d: "d = CHR '',''" and pe: "parse_elements F (skip_ws ds) = Some (vs', r)"
      and vs: "vs = v # vs'" by blast
    note l3 = adequateD(1) [OF e pe] and l4 = skip_ws_length [of ds]
    from f l1 l2 l3 l4 obtain f' where f': "f = Suc f'" by (cases f) auto
    with f l1 l2 l3 l4 have "length s - length r1 \<le> f'" "length (skip_ws ds) - length r \<le> f'"
      by simp_all
    from adequateD(2) [OF pv v this(1)] adequateD(2) [OF e pe this(2)] f' sk d vs
    show ?thesis by simp
  qed
qed

lemma pm_step:
  assumes pv: "adequate parse_value F" and m: "adequate parse_members F"
  shows "adequate parse_members (Suc F)"
proof (rule adequateI)
  fix s ms r assume a: "parse_members (Suc F) s = Some (ms, r)"
  from pm_inv [OF a] obtain cs k r0 ds v r1 d1 ds1 where
    s: "s = CHR 0x22 # cs" and pc: "parse_chars cs = Some (k, r0)" and sk: "skip_ws r0 = CHR '':'' # ds"
    and v: "parse_value F (skip_ws ds) = Some (v, r1)" and sk1: "skip_ws r1 = d1 # ds1"
    and c: "d1 = CHR ''}'' \<and> ms = [(k, v)] \<and> r = ds1
            \<or> d1 = CHR '','' \<and> (\<exists>ms'. parse_members F (skip_ws ds1) = Some (ms', r) \<and> ms = (k, v) # ms')"
    by blast
  note l0 = parse_chars_length [OF pc] and l1 = skip_ws_Cons_length [OF sk]
    and l2 = skip_ws_length [of ds] and l3 = adequateD(1) [OF pv v] and l4 = skip_ws_Cons_length [OF sk1]
  from c show "length r < length s"
  proof
    assume "d1 = CHR ''}'' \<and> ms = [(k, v)] \<and> r = ds1"
    with s l0 l1 l2 l3 l4 show ?thesis by simp
  next
    assume "d1 = CHR '','' \<and> (\<exists>ms'. parse_members F (skip_ws ds1) = Some (ms', r) \<and> ms = (k, v) # ms')"
    then obtain ms' where "parse_members F (skip_ws ds1) = Some (ms', r)" by blast
    from adequateD(1) [OF m this] skip_ws_length [of ds1] s l0 l1 l2 l3 l4 show ?thesis by simp
  qed
next
  fix s ms r f assume a: "parse_members (Suc F) s = Some (ms, r)" and f: "length s - length r \<le> f"
  from pm_inv [OF a] obtain cs k r0 ds v r1 d1 ds1 where
    s: "s = CHR 0x22 # cs" and pc: "parse_chars cs = Some (k, r0)" and sk: "skip_ws r0 = CHR '':'' # ds"
    and v: "parse_value F (skip_ws ds) = Some (v, r1)" and sk1: "skip_ws r1 = d1 # ds1"
    and c: "d1 = CHR ''}'' \<and> ms = [(k, v)] \<and> r = ds1
            \<or> d1 = CHR '','' \<and> (\<exists>ms'. parse_members F (skip_ws ds1) = Some (ms', r) \<and> ms = (k, v) # ms')"
    by blast
  note l0 = parse_chars_length [OF pc] and l1 = skip_ws_Cons_length [OF sk]
    and l2 = skip_ws_length [of ds] and l3 = adequateD(1) [OF pv v] and l4 = skip_ws_Cons_length [OF sk1]
  from c show "parse_members f s = Some (ms, r)"
  proof
    assume c1: "d1 = CHR ''}'' \<and> ms = [(k, v)] \<and> r = ds1"
    with f s l0 l1 l2 l3 l4 obtain f' where f': "f = Suc f'" by (cases f) auto
    with f c1 s l0 l1 l2 l3 l4 have "length (skip_ws ds) - length r1 \<le> f'" by simp
    from adequateD(2) [OF pv v this] f' s pc sk sk1 c1 show ?thesis
      by (simp del: parse_chars.simps)
  next
    assume "d1 = CHR '','' \<and> (\<exists>ms'. parse_members F (skip_ws ds1) = Some (ms', r) \<and> ms = (k, v) # ms')"
    then obtain ms' where d: "d1 = CHR '',''" and pm: "parse_members F (skip_ws ds1) = Some (ms', r)"
      and ms: "ms = (k, v) # ms'" by blast
    note l5 = adequateD(1) [OF m pm] and l6 = skip_ws_length [of ds1]
    from f s l0 l1 l2 l3 l4 l5 l6 obtain f' where f': "f = Suc f'" by (cases f) auto
    with f s l0 l1 l2 l3 l4 l5 l6
    have "length (skip_ws ds) - length r1 \<le> f'" "length (skip_ws ds1) - length r \<le> f'"
      by simp_all
    from adequateD(2) [OF pv v this(1)] adequateD(2) [OF m pm this(2)] f' s pc sk sk1 d ms
    show ?thesis by (simp del: parse_chars.simps)
  qed
qed

lemma fuel_adequate:
  "adequate parse_value F \<and> adequate parse_elements F \<and> adequate parse_members F"
proof (induction F)
  case 0
  show ?case by (simp add: adequate_def)
next
  case (Suc F)
  then show ?case using pv_step pe_step pm_step by blast
qed

text \<open>
  If any amount of fuel parses the whole text, \<open>JSON_parse\<close> returns the same value.
\<close>

theorem JSON_parse_fuel:
  assumes "parse_value F (skip_ws s) = Some (v, r)" and "skip_ws r = []"
  shows "JSON_parse s = Some v"
proof -
  from fuel_adequate [of F] have ad: "adequate parse_value F" by blast
  have "length (skip_ws s) - length r \<le> length s"
    using skip_ws_length [of s] by simp
  from adequateD(2) [OF ad assms(1) this] assms(2) show ?thesis
    by (simp add: JSON_parse_def)
qed

subsection \<open>JSON round trip\<close>

lemma digit_cases: "d < 10 \<Longrightarrow> d = 0 \<or> d = 1 \<or> d = 2 \<or> d = 3 \<or> d = 4 \<or> d = 5 \<or> d = 6 \<or> d = 7 \<or> d = 8 \<or> d = (9::nat)"
  by arith

lemma digit_char_props:
  assumes "d < 10"
  shows "is_digit (digit_char d)" "digit_val (digit_char d) = d"
    "digit_char d \<noteq> CHR ''-''" "(digit_char d = CHR ''0'') = (d = 0)"
  using digit_cases [OF assms]
  by (auto simp: digit_char_def is_digit_def digit_val_def)

lemma show_nat_digits: "list_all is_digit (show_nat n)"
  by (induction n rule: show_nat.induct) (subst show_nat.simps, simp add: digit_char_props)

lemma show_nat_nonempty: "show_nat n \<noteq> []"
  by (subst show_nat.simps) simp

lemma show_nat_value: "foldl (\<lambda>a c. 10 * a + digit_val c) 0 (show_nat n) = n"
proof (induction n rule: show_nat.induct)
  case (1 n)
  show ?case
  proof (cases "n < 10")
    case True
    then show ?thesis by (subst show_nat.simps) (simp add: digit_char_props)
  next
    case False
    with 1 have "foldl (\<lambda>a c. 10 * a + digit_val c) 0 (show_nat (n div 10)) = n div 10" by simp
    with False show ?thesis by (subst show_nat.simps) (simp add: digit_char_props)
  qed
qed

lemma show_nat_hd: "hd (show_nat n) = CHR ''0'' \<Longrightarrow> n = 0"
proof (induction n rule: show_nat.induct)
  case (1 n)
  show ?case
  proof (cases "n < 10")
    case True
    with 1(2) show ?thesis by (subst (asm) show_nat.simps) (simp add: digit_char_props)
  next
    case False
    with 1(2) have "hd (show_nat (n div 10)) = CHR ''0''"
      by (subst (asm) show_nat.simps) (simp add: show_nat_nonempty)
    with 1(1) False have "n div 10 = 0" by simp
    with False show ?thesis by simp
  qed
qed

lemma show_nat_0: "show_nat 0 = ''0''"
  by (subst show_nat.simps) (simp add: digit_char_def)

lemma show_nat_leading: "hd (show_nat n) = CHR ''0'' \<Longrightarrow> length (show_nat n) = 1"
  using show_nat_hd [of n] by (auto simp: show_nat_0)

lemma takeWhile_digits: "list_all is_digit ds \<Longrightarrow> ok_follow r \<Longrightarrow> takeWhile is_digit (ds @ r) = ds"
  by (induction ds) (auto simp: ok_follow_def split: list.splits)

lemma dropWhile_digits: "list_all is_digit ds \<Longrightarrow> ok_follow r \<Longrightarrow> dropWhile is_digit (ds @ r) = r"
  by (induction ds) (auto simp: ok_follow_def split: list.splits)

lemma parse_number_show_nat:
  assumes "ok_follow r"
  shows "parse_number (show_nat n @ r) = Some (JNum (int n), r)"
proof -
  have hd: "hd (show_nat n @ r) \<noteq> CHR ''-''"
    using show_nat_digits [of n] show_nat_nonempty [of n]
    by (cases "show_nat n") (auto simp: is_digit_def)
  have ne: "show_nat n @ r \<noteq> []" using show_nat_nonempty by simp
  have r: "\<not> (r \<noteq> [] \<and> hd r \<in> set ''.eE'')" using assms by (cases r) (auto simp: ok_follow_def)
  show ?thesis
    unfolding parse_number_def Let_def
    using hd r show_nat_leading [of n] show_nat_nonempty [of n]
    by (simp add: takeWhile_digits [OF show_nat_digits assms] dropWhile_digits [OF show_nat_digits assms]
        show_nat_value del: set_simps)
qed

lemma parse_number_show_int:
  assumes "ok_follow r"
  shows "parse_number (show_int i @ r) = Some (JNum i, r)"
proof (cases "i < 0")
  case False
  then show ?thesis using parse_number_show_nat [OF assms, of "nat i"] by (simp add: show_int_def)
next
  case True
  have r: "\<not> (r \<noteq> [] \<and> hd r \<in> set ''.eE'')" using assms by (cases r) (auto simp: ok_follow_def)
  from True have "nat (- i) \<noteq> 0" by simp
  then have "hd (show_nat (nat (- i))) \<noteq> CHR ''0''" using show_nat_hd [of "nat (- i)"] by auto
  with True r show ?thesis
    unfolding parse_number_def Let_def show_int_def
    using show_nat_nonempty [of "nat (- i)"]
    by (simp add: takeWhile_digits [OF show_nat_digits assms] dropWhile_digits [OF show_nat_digits assms]
        show_nat_value del: set_simps)
qed

lemma hex_cases: "d < 16 \<Longrightarrow> d = 0 \<or> d = 1 \<or> d = 2 \<or> d = 3 \<or> d = 4 \<or> d = 5 \<or> d = 6 \<or> d = 7 \<or> d = 8 \<or> d = 9
   \<or> d = 10 \<or> d = 11 \<or> d = 12 \<or> d = 13 \<or> d = 14 \<or> d = (15::nat)"
  by arith

lemma hex_val_hex_char: "d < 16 \<Longrightarrow> hex_val (hex_char d) = Some d"
  using hex_cases [of d] by (auto simp: hex_val_def hex_char_def is_digit_def)

lemma hex4_escape:
  assumes "(of_char c :: nat) < 32"
  shows "hex4 (CHR ''0'') (CHR ''0'') (hex_char (of_char c div 16)) (hex_char (of_char c mod 16)) = Some c"
proof -
  have a: "hex_val (CHR ''0'') = Some 0" by (simp add: hex_val_def is_digit_def)
  have b: "hex_val (hex_char (of_char c div 16)) = Some (of_char c div 16)"
    using assms by (intro hex_val_hex_char) simp
  have c: "hex_val (hex_char (of_char c mod 16)) = Some (of_char c mod 16)"
    by (intro hex_val_hex_char) simp
  have "char_of (16 * (of_char c div 16) + of_char c mod 16 :: nat) = c" by simp
  then show ?thesis by (simp add: hex4_def a b c)
qed

lemma parse_chars_escape_char:
  "parse_chars (escape_char c @ t) = map_option (\<lambda>(s, r). (c # s, r)) (parse_chars t)"
proof -
  consider (q) "c = CHR 0x22" | (b) "c = CHR 0x5C" | (bs) "c = CHR 0x08" | (ff) "c = CHR 0x0C"
    | (nl) "c = CHR 0x0A" | (cr) "c = CHR 0x0D" | (tab) "c = CHR 0x09"
    | (ctl) "c \<notin> {CHR 0x22, CHR 0x5C, CHR 0x08, CHR 0x0C, CHR 0x0A, CHR 0x0D, CHR 0x09}" "(of_char c :: nat) < 32"
    | (plain) "c \<notin> {CHR 0x22, CHR 0x5C, CHR 0x08, CHR 0x0C, CHR 0x0A, CHR 0x0D, CHR 0x09}" "\<not> (of_char c :: nat) < 32"
    by blast
  then show ?thesis
  proof cases
    case ctl
    then show ?thesis by (simp add: escape_char_def hex4_escape)
  next
    case plain
    then show ?thesis by (simp add: escape_char_def)
  qed (simp_all add: escape_char_def unescape_def)
qed

lemma parse_chars_quote:
  "parse_chars (concat (map escape_char s) @ CHR 0x22 # r) = Some (s, r)"
  by (induction s) (simp_all add: parse_chars_escape_char del: parse_chars.simps(2), simp)

lemma parse_literals:
  "parse_literal (''null'' @ r) = Some (JNull, r)"
  "parse_literal (''true'' @ r) = Some (JBool True, r)"
  "parse_literal (''false'' @ r) = Some (JBool False, r)"
  by (simp_all add: parse_literal_def)

lemma commas_Cons: "commas (x # xs) = (if xs = [] then x else x @ CHR '','' # commas xs)"
  by (cases xs) simp_all

lemma obj_put_fresh: "k \<notin> fst ` set acc \<Longrightarrow> obj_put acc k v = acc @ [(k, v)]"
  by (induction acc) auto

lemma foldl_obj_put: "distinct (map fst (acc @ m)) \<Longrightarrow> foldl (\<lambda>acc (k, v). obj_put acc k v) acc m = acc @ m"
proof (induction m arbitrary: acc)
  case Nil
  then show ?case by simp
next
  case (Cons kv m)
  obtain k v where kv: "kv = (k, v)" by (cases kv)
  from Cons.prems kv have "k \<notin> fst ` set acc" by auto
  then have "obj_put acc k v = acc @ [(k, v)]" by (rule obj_put_fresh)
  moreover from Cons.prems kv have "distinct (map fst ((acc @ [(k, v)]) @ m))" by simp
  ultimately show ?case using Cons.IH [of "acc @ [(k, v)]"] kv by simp
qed

lemma show_int_first: "\<exists>c cs. show_int i = c # cs \<and> (c = CHR ''-'' \<or> is_digit c)"
proof (cases "i < 0")
  case True
  then show ?thesis by (simp add: show_int_def)
next
  case False
  obtain c cs where "show_nat (nat i) = c # cs" using show_nat_nonempty [of "nat i"] by (cases "show_nat (nat i)") auto
  moreover with show_nat_digits [of "nat i"] have "is_digit c" by simp
  ultimately show ?thesis using False by (simp add: show_int_def)
qed

lemma starts_value_append: "starts_value s \<Longrightarrow> starts_value (s @ r)"
  by (cases s) (auto simp: starts_value_def)

lemma starts_value_skip: "starts_value s \<Longrightarrow> skip_ws s = s"
  by (cases s) (auto simp: starts_value_def skip_ws_def)

lemma starts_value_stringify: "starts_value (JSON_stringify v)"
proof (cases v)
  case (JNum i)
  obtain c cs where "show_int i = c # cs" "c = CHR ''-'' \<or> is_digit c" using show_int_first by blast
  with JNum show ?thesis by (auto simp: starts_value_def is_ws_def is_digit_def)
qed (auto simp: starts_value_def is_ws_def quote_def)

lemma starts_value_quote: "starts_value (quote k @ r)"
  by (simp add: starts_value_def quote_def is_ws_def)

lemma starts_value_commas_elements: "vs \<noteq> [] \<Longrightarrow> starts_value (commas (stringify_elements vs) @ r)"
  by (cases vs) (auto simp: commas_Cons intro!: starts_value_append starts_value_stringify)

lemma starts_value_commas_members: "m \<noteq> [] \<Longrightarrow> starts_value (commas (stringify_members m) @ r)"
  by (cases m) (auto simp: commas_Cons quote_def starts_value_def is_ws_def)

lemma ok_follow_simps [simp]:
  "ok_follow []" "ok_follow (CHR '']'' # r)" "ok_follow (CHR '','' # r)" "ok_follow (CHR ''}'' # r)"
  by (simp_all add: ok_follow_def is_digit_def)

lemma skip_ws_simps [simp]:
  "skip_ws (CHR '']'' # r) = CHR '']'' # r" "skip_ws (CHR '','' # r) = CHR '','' # r"
  "skip_ws (CHR ''}'' # r) = CHR ''}'' # r" "skip_ws (CHR '':'' # r) = CHR '':'' # r"
  by (simp_all add: skip_ws_def is_ws_def)

lemma pv_null: "parse_value (Suc f) (''null'' @ r) = Some (JNull, r)"
  using parse_literals(1) [of r] by (simp add: is_digit_def)

lemma pv_true: "parse_value (Suc f) (''true'' @ r) = Some (JBool True, r)"
  using parse_literals(2) [of r] by (simp add: is_digit_def)

lemma pv_false: "parse_value (Suc f) (''false'' @ r) = Some (JBool False, r)"
  using parse_literals(3) [of r] by (simp add: is_digit_def)

lemma pv_num: "ok_follow r \<Longrightarrow> parse_value (Suc f) (show_int i @ r) = Some (JNum i, r)"
proof -
  assume ok: "ok_follow r"
  obtain c cs where s: "show_int i = c # cs" and c: "c = CHR ''-'' \<or> is_digit c"
    using show_int_first by blast
  from c have "c \<noteq> CHR ''[''" "c \<noteq> CHR ''{''" "c \<noteq> CHR 0x22" by (auto simp: is_digit_def)
  with c have "parse_value (Suc f) (c # cs @ r) = parse_number (c # cs @ r)" by simp
  with parse_number_show_int [OF ok, of i] s show ?thesis by simp
qed

lemma pv_str: "parse_value (Suc f) (quote s @ r) = Some (JStr s, r)"
  using parse_chars_quote [of s r] by (simp add: quote_def del: parse_chars.simps)

lemma pv_arr_empty: "parse_value (Suc f) (CHR ''['' # CHR '']'' # r) = Some (JArr [], r)"
  by simp

lemma pv_arr:
  assumes "starts_value s" "parse_elements f s = Some (vs, r)"
  shows "parse_value (Suc f) (CHR ''['' # s) = Some (JArr vs, r)"
proof -
  from assms(1) obtain d ds where s: "s = d # ds" "d \<noteq> CHR '']''"
    by (cases s) (auto simp: starts_value_def)
  with starts_value_skip [OF assms(1)] assms(2) show ?thesis by simp
qed

lemma pv_obj_empty: "parse_value (Suc f) (CHR ''{'' # CHR ''}'' # r) = Some (JObj [], r)"
  by simp

lemma pv_obj:
  assumes "starts_value s" "parse_members f s = Some (m, r)"
  shows "parse_value (Suc f) (CHR ''{'' # s) = Some (JObj (foldl (\<lambda>acc (k, v). obj_put acc k v) [] m), r)"
proof -
  from assms(1) obtain d ds where s: "s = d # ds" "d \<noteq> CHR ''}''"
    by (cases s) (auto simp: starts_value_def)
  with starts_value_skip [OF assms(1)] assms(2) show ?thesis by simp
qed

lemma pe_last:
  assumes "parse_value f s = Some (v, CHR '']'' # r)"
  shows "parse_elements (Suc f) s = Some ([v], r)"
  using assms by simp

lemma pe_more:
  assumes "parse_value f s = Some (v, CHR '','' # t)" "starts_value t" "parse_elements f t = Some (vs, r)"
  shows "parse_elements (Suc f) s = Some (v # vs, r)"
  using assms starts_value_skip [OF assms(2)] by simp

lemma pm_last:
  assumes "parse_value f s = Some (v, CHR ''}'' # r)" "starts_value s"
  shows "parse_members (Suc f) (quote k @ CHR '':'' # s) = Some ([(k, v)], r)"
  using assms parse_chars_quote [of k "CHR '':'' # s"] starts_value_skip [OF assms(2)]
  by (simp add: quote_def del: parse_chars.simps)

lemma pm_more:
  assumes "parse_value f s = Some (v, CHR '','' # t)" "starts_value s" "starts_value t"
    "parse_members f t = Some (m, r)"
  shows "parse_members (Suc f) (quote k @ CHR '':'' # s) = Some ((k, v) # m, r)"
  using assms parse_chars_quote [of k "CHR '':'' # s"] starts_value_skip [OF assms(2)]
    starts_value_skip [OF assms(3)]
  by (simp add: quote_def del: parse_chars.simps)

lemma stringify_elements_Nil [simp]: "(stringify_elements vs = []) = (vs = [])"
  by (cases vs) simp_all

lemma stringify_members_Nil [simp]: "(stringify_members m = []) = (m = [])"
  by (cases m) auto

lemma parse_stringify_all:
  "(distinct_keys v \<longrightarrow> (\<forall>f r. need v \<le> f \<longrightarrow> ok_follow r \<longrightarrow>
      parse_value f (JSON_stringify v @ r) = Some (v, r)))"
  "(vs \<noteq> [] \<longrightarrow> distinct_keys_elements vs \<longrightarrow> (\<forall>f r. needs vs \<le> f \<longrightarrow>
      parse_elements f (commas (stringify_elements vs) @ CHR '']'' # r) = Some (vs, r)))"
  "(m \<noteq> [] \<longrightarrow> distinct_keys_members m \<longrightarrow> (\<forall>f r. needm m \<le> f \<longrightarrow>
      parse_members f (commas (stringify_members m) @ CHR ''}'' # r) = Some (m, r)))"
proof (induction v and vs and m rule: JSON_stringify_stringify_elements_stringify_members.induct)
  case 1
  show ?case
  proof (intro impI allI)
    fix f :: nat and r assume "need JNull \<le> f"
    then obtain f' where "f = Suc f'" by (cases f) auto
    then show "parse_value f (JSON_stringify JNull @ r) = Some (JNull, r)"
      using pv_null [of f' r] by simp
  qed
next
  case (2 b)
  show ?case
  proof (intro impI allI)
    fix f :: nat and r assume "need (JBool b) \<le> f"
    then obtain f' where "f = Suc f'" by (cases f) auto
    then show "parse_value f (JSON_stringify (JBool b) @ r) = Some (JBool b, r)"
      using pv_true [of f' r] pv_false [of f' r] by (cases b) simp_all
  qed
next
  case (3 i)
  show ?case
  proof (intro impI allI)
    fix f :: nat and r assume "need (JNum i) \<le> f" and ok: "ok_follow r"
    then obtain f' where "f = Suc f'" by (cases f) auto
    then show "parse_value f (JSON_stringify (JNum i) @ r) = Some (JNum i, r)"
      using pv_num [OF ok, of f' i] by simp
  qed
next
  case (4 s)
  show ?case
  proof (intro impI allI)
    fix f :: nat and r assume "need (JStr s) \<le> f"
    then obtain f' where "f = Suc f'" by (cases f) auto
    then show "parse_value f (JSON_stringify (JStr s) @ r) = Some (JStr s, r)"
      using pv_str [of f' s r] by simp
  qed
next
  case (5 vs)
  show ?case
  proof (intro impI allI)
    fix f :: nat and r assume dk: "distinct_keys (JArr vs)" and "need (JArr vs) \<le> f"
    then obtain f' where f: "f = Suc f'" "needs vs \<le> f'" by (cases f) auto
    show "parse_value f (JSON_stringify (JArr vs) @ r) = Some (JArr vs, r)"
    proof (cases "vs = []")
      case True
      with f show ?thesis using pv_arr_empty [of f' r] by simp
    next
      case False
      with 5 dk f have "parse_elements f' (commas (stringify_elements vs) @ CHR '']'' # r) = Some (vs, r)"
        by simp
      from pv_arr [OF starts_value_commas_elements [OF False] this] f show ?thesis by simp
    qed
  qed
next
  case (6 m)
  show ?case
  proof (intro impI allI)
    fix f :: nat and r assume dk: "distinct_keys (JObj m)" and "need (JObj m) \<le> f"
    then obtain f' where f: "f = Suc f'" "needm m \<le> f'" by (cases f) auto
    show "parse_value f (JSON_stringify (JObj m) @ r) = Some (JObj m, r)"
    proof (cases "m = []")
      case True
      with f show ?thesis using pv_obj_empty [of f' r] by simp
    next
      case False
      with 6 dk f have "parse_members f' (commas (stringify_members m) @ CHR ''}'' # r) = Some (m, r)"
        by simp
      from pv_obj [OF starts_value_commas_members [OF False] this] f dk
      show ?thesis using foldl_obj_put [of "[]" m] by simp
    qed
  qed
next
  case 7
  show ?case by simp
next
  case (8 v vs)
  show ?case
  proof (intro impI allI)
    fix f :: nat and r
    assume dk: "distinct_keys_elements (v # vs)" and "needs (v # vs) \<le> f"
    then obtain f' where f: "f = Suc f'" "need v \<le> f'" "needs vs \<le> f'" by (cases f) auto
    show "parse_elements f (commas (stringify_elements (v # vs)) @ CHR '']'' # r) = Some (v # vs, r)"
    proof (cases "vs = []")
      case True
      from 8(1) dk f have "parse_value f' (JSON_stringify v @ CHR '']'' # r) = Some (v, CHR '']'' # r)"
        by simp
      from pe_last [OF this] True f show ?thesis by simp
    next
      case False
      let ?t = "commas (stringify_elements vs) @ CHR '']'' # r"
      from 8(1) dk f have a: "parse_value f' (JSON_stringify v @ CHR '','' # ?t) = Some (v, CHR '','' # ?t)"
        by simp
      from 8(2) dk f False have b: "parse_elements f' ?t = Some (vs, r)" by simp
      from pe_more [OF a starts_value_commas_elements [OF False] b] False f
      show ?thesis by (simp add: commas_Cons)
    qed
  qed
next
  case 9
  show ?case by simp
next
  case (10 k v m)
  show ?case
  proof (intro impI allI)
    fix f :: nat and r
    assume dk: "distinct_keys_members ((k, v) # m)" and "needm ((k, v) # m) \<le> f"
    then obtain f' where f: "f = Suc f'" "need v \<le> f'" "needm m \<le> f'" by (cases f) auto
    show "parse_members f (commas (stringify_members ((k, v) # m)) @ CHR ''}'' # r) = Some ((k, v) # m, r)"
    proof (cases "m = []")
      case True
      from 10(1) dk f have "parse_value f' (JSON_stringify v @ CHR ''}'' # r) = Some (v, CHR ''}'' # r)"
        by simp
      from pm_last [OF this starts_value_append [OF starts_value_stringify], of k] True f
      show ?thesis by simp
    next
      case False
      let ?t = "commas (stringify_members m) @ CHR ''}'' # r"
      from 10(1) dk f have a: "parse_value f' (JSON_stringify v @ CHR '','' # ?t) = Some (v, CHR '','' # ?t)"
        by simp
      from 10(2) dk f False have b: "parse_members f' ?t = Some (m, r)" by simp
      from pm_more [OF a starts_value_append [OF starts_value_stringify]
          starts_value_commas_members [OF False] b, of k] False f
      show ?thesis by (simp add: commas_Cons)
    qed
  qed
qed

lemma need_le_length:
  "need v \<le> length (JSON_stringify v)"
  "needs vs \<le> length (commas (stringify_elements vs)) + 1"
  "needm m \<le> length (commas (stringify_members m)) + 1"
proof (induction v and vs and m rule: JSON_stringify_stringify_elements_stringify_members.induct)
  case (3 i)
  obtain c cs where "show_int i = c # cs" using show_int_first by blast
  then show ?case by simp
next
  case (8 v vs)
  then show ?case by (cases "vs = []") (auto simp: commas_Cons)
next
  case (10 k v m)
  then show ?case by (cases "m = []") (auto simp: commas_Cons quote_def)
qed (auto simp: quote_def)

text \<open>
  \<open>JSON.parse(JSON.stringify(v))\<close> is \<open>v\<close> for every value whose objects have no
  property name twice.
\<close>

theorem JSON_parse_stringify:
  assumes "distinct_keys v"
  shows "JSON_parse (JSON_stringify v) = Some v"
proof -
  from parse_stringify_all(1) [of v] assms
  have "\<forall>f r. need v \<le> f \<longrightarrow> ok_follow r \<longrightarrow> parse_value f (JSON_stringify v @ r) = Some (v, r)"
    by blast
  then have "parse_value (length (JSON_stringify v)) (JSON_stringify v @ []) = Some (v, [])"
    using need_le_length(1) [of v] ok_follow_simps(1) by blast
  then show ?thesis
    using starts_value_skip [OF starts_value_stringify, of v]
    by (simp add: JSON_parse_def skip_ws_def)
qed

subsection \<open>Legacy migration\<close>

lemma digit_not_ws: "is_digit c \<Longrightarrow> \<not> is_js_ws c"
  by (auto simp: is_digit_def is_js_ws_def)

lemma iso8601_not_numeric:
  assumes "is_iso8601 s"
  shows "\<not> js_numeric s"
proof -
  from assms obtain y1 y2 y3 y4 r where s: "s = y1 # y2 # y3 # y4 # CHR ''-'' # r @ [CHR ''Z'']"
    and d: "is_digit y1" "is_digit y2" "is_digit y3" "is_digit y4"
    by (cases s rule: is_iso8601.cases) auto
  have trim: "trim s = s"
    using digit_not_ws [OF d(1)] by (simp add: trim_def trimEnd_def s is_js_ws_def)
  have nd: "\<not> is_digit (CHR ''-'')" by (simp add: is_digit_def)
  have y1: "y1 \<noteq> CHR ''+''" "y1 \<noteq> CHR ''-''" "y2 \<noteq> CHR ''x''" "y2 \<noteq> CHR ''X''"
    "y2 \<noteq> CHR ''o''" "y2 \<noteq> CHR ''O''" "y2 \<noteq> CHR ''b''" "y2 \<noteq> CHR ''B''" "y1 \<noteq> CHR ''I''"
    using d by (auto simp: is_digit_def)
  have "\<not> decimal_ok s"
    using d nd y1 by (simp add: decimal_ok_def s exponent_ok_def)
  then show ?thesis
    using y1 by (simp add: js_numeric_def trim Let_def) (simp add: s)
qed

lemma canonical_time_legacy: "canonical_time t \<Longrightarrow> legacy_time toISO t = t"
  by (cases t) (auto simp: legacy_time_def iso8601_not_numeric)

lemma updateLegacyInfo_canonical: "canonical_entries es \<Longrightarrow> updateLegacyInfo toISO es = es"
  by (induction es rule: canonical_entries.induct) (simp_all add: canonical_time_legacy)

lemma legacy_time_idem:
  assumes "\<And>v s. toISO v = Some s \<Longrightarrow> \<not> legacy_numeric (TStr s)"
  shows "legacy_time toISO (legacy_time toISO t) = legacy_time toISO t"
proof (cases "legacy_numeric t")
  case False
  then show ?thesis by (simp add: legacy_time_def)
next
  case True
  show ?thesis
  proof (cases "toISO t")
    case None
    with True show ?thesis by (simp add: legacy_time_def)
  next
    case (Some s)
    with assms have "\<not> legacy_numeric (TStr s)" by blast
    with True Some show ?thesis by (simp add: legacy_time_def del: legacy_numeric.simps)
  qed
qed

lemma updateLegacyInfo_Nil [simp]: "(updateLegacyInfo toISO es = []) = (es = [])"
proof (cases es)
  case (Cons x xs)
  then show ?thesis by (cases x; cases "subEntries x") simp_all
qed simp

lemma updateLegacyInfo_idem:
  assumes "\<And>v s. toISO v = Some s \<Longrightarrow> \<not> legacy_numeric (TStr s)"
  shows "updateLegacyInfo toISO (updateLegacyInfo toISO es) = updateLegacyInfo toISO es"
  using assms
  by (induction toISO es rule: updateLegacyInfo.induct) (simp_all add: legacy_time_idem)

subsection \<open>Codec\<close>

lemma json_tstamp_inv [simp]: "json_tstamp (Some (tstamp_json s)) = Some s"
  by (cases s) simp_all

lemma map_of_collapsed [simp]:
  "map_of (collapsed_json c) ''name'' = None"
  "map_of (collapsed_json c) ''startTime'' = None"
  "map_of (collapsed_json c) ''endTime'' = None"
  "map_of (collapsed_json c) ''subEntries'' = None"
  "json_collapsed (map_of (collapsed_json c) ''collapsed'') = Some c"
  by (cases c; simp)+

lemma json_entry_inv:
  "json_entry (entry_json x) = Some x"
  "those (map json_entry (entries_json xs)) = Some xs"
  by (induction x and xs rule: entry_json_entries_json.induct) (simp_all add: map_add_def)

lemma distinct_collapsed [simp]:
  "distinct (map fst (collapsed_json c))" "distinct_keys_members (collapsed_json c)"
  by (cases c; simp)+

lemma collapsed_key: "(k, b) \<in> set (collapsed_json c) \<Longrightarrow> k = ''collapsed''"
  by (cases c) auto

lemma distinct_keys_members_append [simp]:
  "distinct_keys_members (a @ b) = (distinct_keys_members a \<and> distinct_keys_members b)"
  by (induction a) auto

lemma distinct_tstamp [simp]: "distinct_keys (tstamp_json s)"
  by (cases s) simp_all

lemma distinct_keys_entry:
  "distinct_keys (entry_json x)"
  "distinct_keys_elements (entries_json xs)"
proof (induction x and xs rule: entry_json_entries_json.induct)
  case (1 n s e xs c)
  then show ?case by (auto dest: collapsed_key)
next
  case (2 n s e c)
  then show ?case by (auto dest: collapsed_key)
next
  case (3 n s e c)
  then show ?case by (auto dest: collapsed_key)
qed simp_all

lemma distinct_keys_tracker: "distinct_keys (tracker_json t)"
  by (cases "targetTime t") (simp_all add: tracker_json_def distinct_keys_entry)

lemma json_tracker_inv: "json_tracker (tracker_json t) = Some t"
  by (cases "targetTime t") (simp_all add: tracker_json_def json_tracker_def json_entry_inv)

lemma encode_nonempty: "encode t \<noteq> []"
  by (simp add: encode_def tracker_json_def)

lemma loadTracker_try_encode:
  "loadTracker_try toISO (encode t) = Inr (t\<lparr>entries := updateLegacyInfo toISO (entries t)\<rparr>)"
  by (simp add: loadTracker_try_def encode_def JSON_parse_stringify [OF distinct_keys_tracker]
      json_tracker_inv)

text \<open>
  Claim C4. For every tracker in canonical form (timestamps null or ISO-8601 texts, no
  null or empty \<open>subEntries\<close>), the legacy migration changes nothing and
  \<open>loadTracker(JSON.stringify(t))\<close> returns \<open>t\<close> and logs nothing.
\<close>

theorem codec_round_trip:
  assumes "canonical_entries (entries t)"
  shows "updateLegacyInfo toISO (entries t) = entries t \<and> loadTracker toISO (encode t) = (t, [])"
  using assms
  by (simp add: loadTracker_def encode_nonempty loadTracker_try_encode updateLegacyInfo_canonical)

text \<open>
  Claim C5. The legacy migration is idempotent: a second pass of \<open>updateLegacyInfo\<close>
  changes nothing, for every entry tree. The conversion of the moment library enters
  with what it guarantees: the text of an instant is not numeric.
\<close>

theorem updateLegacyInfo_idempotent:
  assumes "\<And>v s. toISO v = Some s \<Longrightarrow> \<not> legacy_numeric (TStr s)"
  shows "updateLegacyInfo toISO (updateLegacyInfo toISO es) = updateLegacyInfo toISO es"
  using updateLegacyInfo_idem [of toISO es] assms by blast

text \<open>
  Claim C9. \<open>loadTracker\<close> returns a tracker for every text: the result type has no
  error value, since the \<open>catch\<close> clause handles every exception of the \<open>try\<close> block.
  When \<open>JSON.parse\<close> fails, or anything else in the block throws, the result is the
  empty tracker and one line is logged; when the block succeeds its tracker is returned
  and nothing is logged; the empty text gives the empty tracker without an attempt.
\<close>

theorem loadTracker_contains_failure:
  "(json \<noteq> [] \<and> JSON_parse json = None \<longrightarrow>
      loadTracker toISO json =
        (\<lparr>entries = [], targetTime = None\<rparr>, [''Failed to parse Tracker from '' @ json]))
   \<and> (\<forall>e. json \<noteq> [] \<and> loadTracker_try toISO json = Inl e \<longrightarrow>
      loadTracker toISO json =
        (\<lparr>entries = [], targetTime = None\<rparr>, [''Failed to parse Tracker from '' @ json]))
   \<and> (\<forall>ret. json \<noteq> [] \<and> loadTracker_try toISO json = Inr ret \<longrightarrow>
      loadTracker toISO json = (ret, []))
   \<and> (json = [] \<longrightarrow> loadTracker toISO json = (\<lparr>entries = [], targetTime = None\<rparr>, []))"
  by (auto simp: loadTracker_def loadTracker_try_def split: sum.splits option.splits)

lemma is_digit_simps [simp]:
  "is_digit (CHR ''0'')" "is_digit (CHR ''1'')" "is_digit (CHR ''2'')" "is_digit (CHR ''3'')" "is_digit (CHR ''4'')"
  "is_digit (CHR ''5'')" "is_digit (CHR ''6'')" "is_digit (CHR ''7'')" "is_digit (CHR ''8'')" "is_digit (CHR ''9'')"
  by (simp_all add: is_digit_def)

theorem codec_round_trip_witness:
  "canonical_entries (entries sample_tracker)
   \<and> loadTracker toISO_sample (encode sample_tracker) = (sample_tracker, [])"
proof -
  have c: "canonical_entries (entries sample_tracker)"
    by (simp add: sample_tracker_def)
  from codec_round_trip [OF c, of toISO_sample] c show ?thesis by blast
qed

lemma encode_sample:
  "encode sample_tracker = ''{\"entries\":[{\"name\":\"Work\",\"startTime\":null,\"endTime\":null,\"subEntries\":[{\"name\":\"Part 1\",\"startTime\":\"2024-01-01T09:00:00.000Z\",\"endTime\":\"2024-01-01T10:00:00.000Z\"},{\"name\":\"Part 2\",\"startTime\":\"2024-01-01T11:00:00.000Z\",\"endTime\":null}],\"collapsed\":true}],\"targetTime\":\"2h\"}''"
  by (simp add: encode_def sample_tracker_def tracker_json_def quote_def escape_char_def)

lemma toISO_sample_not_numeric: "toISO_sample v = Some s \<Longrightarrow> \<not> legacy_numeric (TStr s)"
proof -
  assume "toISO_sample v = Some s"
  then have s: "s = ''2023-11-14T22:13:20.000Z''" by (auto simp: toISO_sample_def split: if_splits)
  have "is_iso8601 ''2023-11-14T22:13:20.000Z''" by simp
  from iso8601_not_numeric [OF this] s show ?thesis by simp
qed

lemma js_numeric_sample: "js_numeric ''1700000000''"
  by (simp add: js_numeric_def trim_def trimEnd_def is_js_ws_def decimal_ok_def Let_def)

theorem updateLegacyInfo_idempotent_witness:
  "updateLegacyInfo toISO_sample [Entry ''Old'' (TNum 1700000000) (TStr ''1700000000'') (Val []) None]
     = [Entry ''Old'' (TStr ''2023-11-14T22:13:20.000Z'') (TStr ''2023-11-14T22:13:20.000Z'') Undefined None]
   \<and> updateLegacyInfo toISO_sample
       [Entry ''Old'' (TStr ''2023-11-14T22:13:20.000Z'') (TStr ''2023-11-14T22:13:20.000Z'') Undefined None]
     = [Entry ''Old'' (TStr ''2023-11-14T22:13:20.000Z'') (TStr ''2023-11-14T22:13:20.000Z'') Undefined None]"
proof -
  have one: "updateLegacyInfo toISO_sample [Entry ''Old'' (TNum 1700000000) (TStr ''1700000000'') (Val []) None]
     = [Entry ''Old'' (TStr ''2023-11-14T22:13:20.000Z'') (TStr ''2023-11-14T22:13:20.000Z'') Undefined None]"
    by (simp add: legacy_time_def toISO_sample_def js_numeric_sample)
  from updateLegacyInfo_idempotent [of toISO_sample
      "[Entry ''Old'' (TNum 1700000000) (TStr ''1700000000'') (Val []) None]", OF toISO_sample_not_numeric]
  show ?thesis unfolding one by simp
qed

lemma parse_bad: "JSON_parse ''{bad'' = None"
  by (simp add: JSON_parse_def skip_ws_def is_ws_def)

theorem loadTracker_contains_failure_witness:
  "JSON_parse ''{bad'' = None
   \<and> loadTracker toISO_sample ''{bad'' =
        (\<lparr>entries = [], targetTime = None\<rparr>, [''Failed to parse Tracker from {bad''])"
  using loadTracker_contains_failure [of "''{bad''" toISO_sample] parse_bad by simp

subsection \<open>Rewriting a section\<close>

lemma split_nl_nonempty [simp]: "split_nl s \<noteq> []"
  by (induction s) (auto split: list.splits)

lemma filter_enumerate_le:
  "map snd (filter (\<lambda>(i, x). int i \<le> a) (enumerate n xs)) = take (nat (a + 1 - int n)) xs"
proof (induction xs arbitrary: n)
  case Nil
  then show ?case by simp
next
  case (Cons x xs)
  show ?case
  proof (cases "int n \<le> a")
    case True
    then have "nat (a + 1 - int n) = Suc (nat (a + 1 - int (Suc n)))" by simp
    with True Cons [of "Suc n"] show ?thesis by simp
  next
    case False
    then have z: "nat (a + 1 - int n) = 0" by simp
    have "filter (\<lambda>(i, x). int i \<le> a) (enumerate (Suc n) xs) = []"
      using False by (auto simp: filter_empty_conv in_set_enumerate_eq)
    with False z show ?thesis by simp
  qed
qed

lemma filter_enumerate_ge:
  "map snd (filter (\<lambda>(i, x). int i \<ge> b) (enumerate n xs)) = drop (nat (b - int n)) xs"
proof (induction xs arbitrary: n)
  case Nil
  then show ?case by simp
next
  case (Cons x xs)
  show ?case
  proof (cases "int n \<ge> b")
    case True
    then have z: "nat (b - int n) = 0" by simp
    have "filter (\<lambda>(i, x). int i \<ge> b) (enumerate (Suc n) xs) = enumerate (Suc n) xs"
      using True by (auto simp: filter_id_conv in_set_enumerate_eq)
    with True z show ?thesis by simp
  next
    case False
    then have "nat (b - int n) = Suc (nat (b - int (Suc n)))" by simp
    with False Cons [of "Suc n"] show ?thesis by simp
  qed
qed

lemma filter_index_le: "0 \<le> a \<Longrightarrow> filter_index (\<lambda>i. int i \<le> a) xs = take (nat a + 1) xs"
  using filter_enumerate_le [of a 0 xs] by (simp add: filter_index_def nat_add_distrib)

lemma filter_index_ge: "filter_index (\<lambda>i. int i \<ge> b) xs = drop (nat b) xs"
  using filter_enumerate_ge [of b 0 xs] by (simp add: filter_index_def)

lemma join_nl_Cons: "xs \<noteq> [] \<Longrightarrow> join_nl (x # xs) = x @ CHR 0x0A # join_nl xs"
  by (cases xs) simp_all

lemma join_nl_append:
  "xs \<noteq> [] \<Longrightarrow> ys \<noteq> [] \<Longrightarrow> join_nl (xs @ ys) = join_nl xs @ CHR 0x0A # join_nl ys"
proof (induction xs rule: join_nl.induct)
  case 1
  then show ?case by simp
next
  case (2 x)
  then show ?case by (simp add: join_nl_Cons)
next
  case (3 x y xs)
  then show ?case by simp
qed

lemma saveTracker_content_lines:
  assumes "0 \<le> lineStart sec" "nat (lineEnd sec) < length (split_nl content)"
  shows "saveTracker_content t content sec =
           join_nl (take (nat (lineStart sec) + 1) (split_nl content) @ [encode t]
                    @ drop (nat (lineEnd sec)) (split_nl content))"
proof -
  let ?L = "split_nl content"
  have a: "take (nat (lineStart sec) + 1) ?L \<noteq> []" by simp
  have b: "drop (nat (lineEnd sec)) ?L \<noteq> []" using assms(2) by simp
  have "join_nl (take (nat (lineStart sec) + 1) ?L @ ([encode t] @ drop (nat (lineEnd sec)) ?L))
      = join_nl (take (nat (lineStart sec) + 1) ?L) @ CHR 0x0A # join_nl ([encode t] @ drop (nat (lineEnd sec)) ?L)"
    using a by (intro join_nl_append) simp_all
  also have "join_nl ([encode t] @ drop (nat (lineEnd sec)) ?L)
      = encode t @ CHR 0x0A # join_nl (drop (nat (lineEnd sec)) ?L)"
    using b by (simp add: join_nl_Cons)
  finally show ?thesis
    using assms(1) by (simp add: saveTracker_content_def Let_def filter_index_le filter_index_ge)
qed

lemma scan_lines_sections:
  assumes "(sec, tr) \<in> set (scan_lines toISO i cur ls)"
      and "ls = drop i L"
      and "\<And>st buf. cur = Some (st, buf) \<Longrightarrow>
              1 \<le> st \<and> st \<le> int i \<and> trimEnd (L ! nat (st - 1)) = fence_tag"
  shows "1 \<le> lineStart sec \<and> lineStart sec - 1 \<le> lineEnd sec
       \<and> nat (lineEnd sec + 1) < length L
       \<and> trimEnd (L ! nat (lineStart sec - 1)) = fence_tag
       \<and> trimEnd (L ! nat (lineEnd sec + 1)) = fence"
  using assms
proof (induction ls arbitrary: i cur)
  case Nil
  then show ?case by simp
next
  case (Cons line ls)
  from Cons.prems(2) have i: "i < length L"
    by (cases "i < length L") auto
  from Cons_nth_drop_Suc [OF i] Cons.prems(2) have "L ! i # drop (Suc i) L = line # ls"
    by simp
  then have line: "L ! i = line" and ls: "ls = drop (Suc i) L"
    by simp_all
  show ?case
  proof (cases "trimEnd line = fence_tag")
    case True
    with Cons.prems(1) have "(sec, tr) \<in> set (scan_lines toISO (Suc i) (Some (int i + 1, [])) ls)" by simp
    moreover have "\<And>st buf. Some (int i + 1, []) = Some (st, buf) \<Longrightarrow>
        1 \<le> st \<and> st \<le> int (Suc i) \<and> trimEnd (L ! nat (st - 1)) = fence_tag"
      using True line by auto
    ultimately show ?thesis using Cons.IH [OF _ ls] by blast
  next
    case nt: False
    show ?thesis
    proof (cases cur)
      case None
      with nt Cons.prems(1) have "(sec, tr) \<in> set (scan_lines toISO (Suc i) None ls)" by simp
      then show ?thesis using Cons.IH [OF _ ls, of None] by simp
    next
      case (Some p)
      obtain st buf where p: "p = (st, buf)" by (cases p)
      from Cons.prems(3) [of st buf] Some p
      have inv: "1 \<le> st" "st \<le> int i" "trimEnd (L ! nat (st - 1)) = fence_tag" by simp_all
      show ?thesis
      proof (cases "trimEnd line = fence")
        case True
        with nt Some p Cons.prems(1)
        consider (here) "sec = \<lparr>lineStart = st, lineEnd = int i - 1\<rparr>"
          | (later) "(sec, tr) \<in> set (scan_lines toISO (Suc i) None ls)"
          by auto
        then show ?thesis
        proof cases
          case here
          with inv i line True show ?thesis by (simp add: nat_add_distrib)
        next
          case later
          then show ?thesis using Cons.IH [OF _ ls, of None] by simp
        qed
      next
        case False
        with nt Some p Cons.prems(1)
        have "(sec, tr) \<in> set (scan_lines toISO (Suc i) (Some (st, buf @ line @ [CHR 0x0A])) ls)" by simp
        moreover have "\<And>st' buf'. Some (st, buf @ line @ [CHR 0x0A]) = Some (st', buf') \<Longrightarrow>
            1 \<le> st' \<and> st' \<le> int (Suc i) \<and> trimEnd (L ! nat (st' - 1)) = fence_tag"
          using inv by auto
        ultimately show ?thesis using Cons.IH [OF _ ls] by blast
      qed
    qed
  qed
qed

lemma read_modify: "read v p = Some c \<Longrightarrow> read (modify v p c') p = Some c'"
  by (induction v) (auto simp: read_def modify_def split: if_splits)

text \<open>
  Claim C1, as the code has it. \<open>saveTracker\<close> keeps the lines up to and including
  \<open>lineStart\<close> and the lines from \<open>lineEnd\<close> on: it expects the section of the fence
  lines, which the host hands to the renderer. For a section \<open>{s, e}\<close> that
  \<open>loadAllTrackers\<close> gives (first and last payload line), the lines \<open>s - 1\<close> and
  \<open>e + 1\<close> are the opening and the closing fence, and rewriting with \<open>{s - 1, e + 1}\<close>
  yields exactly the lines before \<open>s\<close>, the serialization of the new tracker, and the
  lines after \<open>e\<close>. Rewriting with \<open>{s, e}\<close> itself keeps the lines up to \<open>s\<close> and
  from \<open>e\<close> on, the old payload among them.
\<close>

theorem saveTracker_splices_fence_section:
  assumes "read v fileName = Some content"
      and "(sec, tr) \<in> set (loadAllTrackers toISO fileName v)"
  shows "1 \<le> lineStart sec \<and> lineStart sec - 1 \<le> lineEnd sec
       \<and> nat (lineEnd sec + 1) < length (split_nl content)
       \<and> trimEnd (split_nl content ! nat (lineStart sec - 1)) = fence_tag
       \<and> trimEnd (split_nl content ! nat (lineEnd sec + 1)) = fence
       \<and> read (saveTracker t2 fileName \<lparr>lineStart = lineStart sec - 1, lineEnd = lineEnd sec + 1\<rparr> v) fileName =
           Some (join_nl (take (nat (lineStart sec)) (split_nl content) @ [encode t2]
                          @ drop (nat (lineEnd sec) + 1) (split_nl content)))
       \<and> read (saveTracker t2 fileName sec v) fileName =
           Some (join_nl (take (nat (lineStart sec) + 1) (split_nl content) @ [encode t2]
                          @ drop (nat (lineEnd sec)) (split_nl content)))"
proof -
  let ?L = "split_nl content"
  from assms have "(sec, tr) \<in> set (scan_lines toISO 0 None ?L)"
    by (simp add: loadAllTrackers_def)
  from scan_lines_sections [OF this, of ?L]
  have s: "1 \<le> lineStart sec" "lineStart sec - 1 \<le> lineEnd sec" "nat (lineEnd sec + 1) < length ?L"
    "trimEnd (?L ! nat (lineStart sec - 1)) = fence_tag" "trimEnd (?L ! nat (lineEnd sec + 1)) = fence"
    by simp_all
  have a: "saveTracker_content t2 content \<lparr>lineStart = lineStart sec - 1, lineEnd = lineEnd sec + 1\<rparr> =
      join_nl (take (nat (lineStart sec)) ?L @ [encode t2] @ drop (nat (lineEnd sec) + 1) ?L)"
    using saveTracker_content_lines [of "\<lparr>lineStart = lineStart sec - 1, lineEnd = lineEnd sec + 1\<rparr>" content t2] s
    by (simp add: nat_add_distrib nat_diff_distrib)
  have b: "saveTracker_content t2 content sec =
      join_nl (take (nat (lineStart sec) + 1) ?L @ [encode t2] @ drop (nat (lineEnd sec)) ?L)"
    using saveTracker_content_lines [of sec content t2] s by simp
  show ?thesis
    using s a b assms(1) by (simp add: saveTracker_def read_modify)
qed

lemma split_sample: "split_nl sample_document = [fence_tag, ''{\"entries\":[]}'', fence]"
  by (simp add: sample_document_def fence_tag_def fence_def)

lemma load_sample:
  "loadAllTrackers toISO_sample ''note.md'' [(''note.md'', sample_document)] =
     [(\<lparr>lineStart = 1, lineEnd = 1\<rparr>, \<lparr>entries = [], targetTime = None\<rparr>)]"
  by code_simp

lemma encode_hour: "encode hour_tracker = ''{\"entries\":[],\"targetTime\":\"1h\"}''"
  by code_simp

lemma save_sample:
  "read (saveTracker hour_tracker ''note.md'' \<lparr>lineStart = 1, lineEnd = 1\<rparr> [(''note.md'', sample_document)]) ''note.md''
     = Some (join_nl [fence_tag, ''{\"entries\":[]}'', ''{\"entries\":[],\"targetTime\":\"1h\"}'', ''{\"entries\":[]}'', fence])"
  by code_simp

lemma claimed_sample:
  "join_nl (take 1 (split_nl sample_document) @ [encode hour_tracker] @ drop (1 + 1) (split_nl sample_document))
     = join_nl [fence_tag, ''{\"entries\":[],\"targetTime\":\"1h\"}'', fence]"
  by code_simp

lemma differ_sample:
  "join_nl [fence_tag, ''{\"entries\":[]}'', ''{\"entries\":[],\"targetTime\":\"1h\"}'', ''{\"entries\":[]}'', fence]
     \<noteq> join_nl [fence_tag, ''{\"entries\":[],\"targetTime\":\"1h\"}'', fence]"
  by code_simp

theorem saveTracker_splices_fence_section_witness:
  "read [(''note.md'', sample_document)] ''note.md'' = Some sample_document
   \<and> (\<lparr>lineStart = 1, lineEnd = 1\<rparr>, \<lparr>entries = [], targetTime = None\<rparr>)
       \<in> set (loadAllTrackers toISO_sample ''note.md'' [(''note.md'', sample_document)])
   \<and> read (saveTracker hour_tracker ''note.md'' \<lparr>lineStart = 0, lineEnd = 2\<rparr>
              [(''note.md'', sample_document)]) ''note.md''
       = Some (join_nl [fence_tag, ''{\"entries\":[],\"targetTime\":\"1h\"}'', fence])"
proof -
  have r: "read [(''note.md'', sample_document)] ''note.md'' = Some sample_document"
    by (simp add: read_def)
  have m: "(\<lparr>lineStart = 1, lineEnd = 1\<rparr>, \<lparr>entries = [], targetTime = None\<rparr>)
       \<in> set (loadAllTrackers toISO_sample ''note.md'' [(''note.md'', sample_document)])"
    by (simp add: load_sample)
  from saveTracker_splices_fence_section [OF r m, of hour_tracker]
  have "read (saveTracker hour_tracker ''note.md'' \<lparr>lineStart = 0, lineEnd = 2\<rparr>
              [(''note.md'', sample_document)]) ''note.md''
       = Some (join_nl [fence_tag, ''{\"entries\":[],\"targetTime\":\"1h\"}'', fence])"
    by (simp add: split_sample encode_hour)
  with r m show ?thesis by blast
qed

text \<open>
  With the section that \<open>loadAllTrackers\<close> gives for the block, \<open>saveTracker\<close> writes
  the old payload line before and after the new one; the lines before \<open>s\<close>, the new
  serialization and the lines after \<open>e\<close> would be another text.
\<close>

theorem saveTracker_locator_section_counterexample:
  "loadAllTrackers toISO_sample ''note.md'' [(''note.md'', sample_document)] =
     [(\<lparr>lineStart = 1, lineEnd = 1\<rparr>, \<lparr>entries = [], targetTime = None\<rparr>)]
   \<and> read (saveTracker hour_tracker ''note.md'' \<lparr>lineStart = 1, lineEnd = 1\<rparr>
              [(''note.md'', sample_document)]) ''note.md''
       = Some (join_nl [fence_tag, ''{\"entries\":[]}'', ''{\"entries\":[],\"targetTime\":\"1h\"}'',
                        ''{\"entries\":[]}'', fence])
   \<and> join_nl (take 1 (split_nl sample_document) @ [encode hour_tracker]
               @ drop (1 + 1) (split_nl sample_document))
       = join_nl [fence_tag, ''{\"entries\":[],\"targetTime\":\"1h\"}'', fence]
   \<and> join_nl [fence_tag, ''{\"entries\":[]}'', ''{\"entries\":[],\"targetTime\":\"1h\"}'',
                ''{\"entries\":[]}'', fence]
       \<noteq> join_nl [fence_tag, ''{\"entries\":[],\"targetTime\":\"1h\"}'', fence]"
  using load_sample save_sample claimed_sample differ_sample by blast

subsection \<open>The scanner\<close>

lemma dollar_blocks:
  "map snd (codeBlocks dollar_document) =
     [''{bad'', ''{\"entries\":[{\"name\":\"a$$b\",\"startTime\":\"2024-01-01T09:00:00.000Z\",\"endTime\":null}]}'']"
  by code_simp

lemma dollar_skip: "stop_block ''2024-01-01T10:00:00.000Z'' ''{bad'' = None"
  by code_simp

lemma dollar_stop:
  "stop_block ''2024-01-01T10:00:00.000Z''
     ''{\"entries\":[{\"name\":\"a$$b\",\"startTime\":\"2024-01-01T09:00:00.000Z\",\"endTime\":null}]}''
   = Some ''{\"entries\":[{\"name\":\"a$$b\",\"startTime\":\"2024-01-01T09:00:00.000Z\",\"endTime\":\"2024-01-01T10:00:00.000Z\"}]}''"
  by code_simp

lemma dollar_result:
  "stopAllRunnersInFile ''2024-01-01T10:00:00.000Z'' dollar_document ''note.md'' [(''note.md'', dollar_document)]
   = ([(''note.md'',
        block_open @ ''{bad'' @ block_close @ [CHR 0x0A]
        @ block_open @ ''{\"entries\":[{\"name\":\"a$b\",\"startTime\":\"2024-01-01T09:00:00.000Z\",\"endTime\":\"2024-01-01T10:00:00.000Z\"}]}''
        @ block_close)], True)"
  by code_simp

subsection \<open>The scanner over the vault\<close>





lemma fst_modify [simp]: "map fst (modify v p c) = map fst v"
  by (induction v) (auto simp: modify_def)







text \<open>
  Claim C10 at a document with a block that does not parse and a block whose running
  entry is named \<open>a$$b\<close>. The first block is skipped and the second is stopped, and the
  file is written; but what is written into the second block is not the serialization
  of the updated tracker: \<open>String.replace\<close> reads \<open>$$\<close> in the replacement text as one
  dollar sign, and the stored name becomes \<open>a$b\<close>.
\<close>

theorem stopAllRunnersInFile_dollar_pattern:
  "stop_block ''2024-01-01T10:00:00.000Z'' ''{bad'' = None
   \<and> stop_block ''2024-01-01T10:00:00.000Z''
       ''{\"entries\":[{\"name\":\"a$$b\",\"startTime\":\"2024-01-01T09:00:00.000Z\",\"endTime\":null}]}''
     = Some ''{\"entries\":[{\"name\":\"a$$b\",\"startTime\":\"2024-01-01T09:00:00.000Z\",\"endTime\":\"2024-01-01T10:00:00.000Z\"}]}''
   \<and> stopAllRunnersInFile ''2024-01-01T10:00:00.000Z'' dollar_document ''note.md'' [(''note.md'', dollar_document)]
     = ([(''note.md'',
          block_open @ ''{bad'' @ block_close @ [CHR 0x0A]
          @ block_open @ ''{\"entries\":[{\"name\":\"a$b\",\"startTime\":\"2024-01-01T09:00:00.000Z\",\"endTime\":\"2024-01-01T10:00:00.000Z\"}]}''
          @ block_close)], True)
   \<and> block_open @ ''{bad'' @ block_close @ [CHR 0x0A]
          @ block_open @ ''{\"entries\":[{\"name\":\"a$b\",\"startTime\":\"2024-01-01T09:00:00.000Z\",\"endTime\":\"2024-01-01T10:00:00.000Z\"}]}''
          @ block_close
     \<noteq> block_open @ ''{bad'' @ block_close @ [CHR 0x0A]
          @ block_open @ ''{\"entries\":[{\"name\":\"a$$b\",\"startTime\":\"2024-01-01T09:00:00.000Z\",\"endTime\":\"2024-01-01T10:00:00.000Z\"}]}''
          @ block_close"
  using dollar_skip dollar_stop dollar_result by simp

subsection \<open>The scanner on documents of the plugin\<close>



























lemma map_option_pair_comp:
  "map_option (\<lambda>(b, a). (x @ b, a)) (map_option (\<lambda>(b, a). (y @ b, a)) r)
     = map_option (\<lambda>(b, a). (x @ y @ b, a)) r"
  by (cases r) auto

lemma map_option_pair_Cons:
  "map_option (\<lambda>(b, a). (c # b, a)) (map_option (\<lambda>(b, a). (y @ b, a)) r)
     = map_option (\<lambda>(b, a). ((c # y) @ b, a)) r"
  by (cases r) auto





text \<open>
  So \<open>replace\<close> finds the block of a running tracker at its own place when the blocks
  before it hold trackers that do not run, and the loop replaces the running trackers of
  a document one by one.
\<close>

lemma blocks_Nil [simp]: "blocks [] = []"
  by (simp add: blocks_def)

lemma blocks_Cons [simp]: "blocks ((t, tx) # bs) = block t @ tx @ blocks bs"
  by (simp add: blocks_def)

lemma blocks_append [simp]: "blocks (as @ bs) = blocks as @ blocks bs"
  by (simp add: blocks_def)









lemma count_running_Cons: "count_running (x # es) = count_running [x] + count_running es"
  using count_running_append [of "[x]" es] by simp




















end
